theory Spec2Isabelle
  imports Complex_Main "HOL-Library.Word" "HOL-Library.List_Lexorder"
begin

section \<open>Strings and numbers of the source language\<close>

text \<open>
  A string of the source is a sequence of UTF-16 code units; \<open>length\<close> counts code units,
  indexing reads one code unit, and \<open>===\<close> on strings is equality of the sequences.
  Numbers that the engine handles are line numbers, counts and sizes: they are modelled as
  unbounded integers, which is exact below \<open>2 ^ 53\<close>.  The one quotient the engine computes
  (the change ratio) is modelled as the exact rational.
\<close>

type_synonym code_unit = "16 word"
type_synonym jsstring = "code_unit list"

definition str :: "string \<Rightarrow> jsstring" where
  "str s = map (\<lambda>c. of_nat (of_char c)) s"

text \<open>The character classes of the regular expressions used in \<open>diff.ts\<close>.\<close>

definition isWhiteSpace :: "code_unit \<Rightarrow> bool" where
  \<comment> \<open>\<open>\s\<close>: white space and line terminators\<close>
  "isWhiteSpace c \<longleftrightarrow>
     c \<in> {0x9, 0xA, 0xB, 0xC, 0xD, 0x20, 0xA0, 0x1680, 0x2028, 0x2029, 0x202F, 0x205F,
          0x3000, 0xFEFF}
     \<or> (0x2000 \<le> c \<and> c \<le> 0x200A)"

definition isDigit :: "code_unit \<Rightarrow> bool" where
  \<comment> \<open>\<open>\d\<close>\<close>
  "isDigit c \<longleftrightarrow> 0x30 \<le> c \<and> c \<le> 0x39"

definition isLineTerminator :: "code_unit \<Rightarrow> bool" where
  \<comment> \<open>what \<open>.\<close> does not match\<close>
  "isLineTerminator c \<longleftrightarrow> c \<in> {0xA, 0xD, 0x2028, 0x2029}"

definition startsWith :: "jsstring \<Rightarrow> jsstring \<Rightarrow> bool" where
  "startsWith line p \<longleftrightarrow> take (length p) line = p"

definition charAt :: "jsstring \<Rightarrow> nat \<Rightarrow> code_unit option" where
  \<comment> \<open>\<open>a[i]\<close>: \<open>undefined\<close> (here \<open>None\<close>) past the end\<close>
  "charAt a i = (if i < length a then Some (a ! i) else None)"

section \<open>Data model (\<open>shared/types/compare\<close>)\<close>

datatype kind = insert | delete | normal

record DiffLineSegment =
  seg_value :: jsstring
  seg_type :: kind

record DiffLine =
  line_type :: kind
  line_oldLineNumber :: "int option"
  line_newLineNumber :: "int option"
  line_lineNumber :: "int option"
  line_content :: "DiffLineSegment list"

record DiffHunk =
  hunk_content :: jsstring
  oldStart :: int
  oldLines :: int
  newStart :: int
  newLines :: int
  hunk_lines :: "DiffLine list"

record DiffSkipBlock =
  skip_count :: int
  skip_content :: jsstring

text \<open>The union \<open>DiffHunk | DiffSkipBlock\<close>, told apart in the source by the \<open>type\<close> tag.\<close>

datatype block = hunk DiffHunk | skip DiffSkipBlock

datatype file_kind = add | delete_file | modify

record FileDiff =
  oldPath :: jsstring
  newPath :: jsstring
  file_type :: file_kind
  hunks :: "block list"

record ParseOptions =
  maxDiffDistance :: rat
  maxChangeRatio :: rat
  mergeModifiedLines :: bool
  inlineMaxCharEdits :: rat

definition defaultOptions :: ParseOptions where
  "defaultOptions = \<lparr>maxDiffDistance = 30, maxChangeRatio = 45 / 100,
     mergeModifiedLines = True, inlineMaxCharEdits = 2\<rparr>"

record RawChange =
  rc_type :: kind
  rc_content :: jsstring
  rc_lineNumber :: "int option"
  rc_oldLineNumber :: "int option"
  rc_newLineNumber :: "int option"
  rc_isNormal :: "bool option"

section \<open>Similarity of two lines\<close>

definition calculateChangeRatio :: "jsstring \<Rightarrow> jsstring \<Rightarrow> rat" where
  "calculateChangeRatio a b =
     (let totalChars = length a + length b in
      if totalChars = 0 then 1
      else
        let maxLen = max (length a) (length b);
            changedChars = length (filter (\<lambda>i. charAt a i \<noteq> charAt b i) [0..<maxLen]);
            changedChars = int changedChars + \<bar>int (length a) - int (length b)\<bar>
        in of_int changedChars / of_nat totalChars)"

definition isSimilarEnough :: "jsstring \<Rightarrow> jsstring \<Rightarrow> rat \<Rightarrow> bool" where
  "isSimilarEnough a b maxRatio =
     (if maxRatio \<le> 0 then a = b
      else if maxRatio \<ge> 1 then True
      else calculateChangeRatio a b \<le> maxRatio)"

section \<open>Word-level alignment of two lines\<close>

text \<open>
  \<open>s.split(/(\s+)/)\<close>: the pieces between the maximal white-space runs, with the runs
  themselves kept as pieces of their own.  The empty string gives one empty piece; a string
  that starts or ends with white space gives an empty piece there.
\<close>

function splitWords :: "jsstring \<Rightarrow> jsstring list" where
  "splitWords s =
     (let word = takeWhile (\<lambda>c. \<not> isWhiteSpace c) s;
          rest = dropWhile (\<lambda>c. \<not> isWhiteSpace c) s
      in if rest = [] then [word]
         else word # takeWhile isWhiteSpace rest # splitWords (dropWhile isWhiteSpace rest))"
  by pat_completeness auto
termination
proof (relation "measure length")
  show "wf (measure length)" by simp
next
  fix s :: jsstring and word rest
  assume r: "rest = dropWhile (\<lambda>c. \<not> isWhiteSpace c) s" and ne: "rest \<noteq> []"
  from ne r have "isWhiteSpace (hd rest)"
    using hd_dropWhile [of "\<lambda>c. \<not> isWhiteSpace c" s] by simp
  with ne have "dropWhile isWhiteSpace rest = dropWhile isWhiteSpace (tl rest)"
    by (cases rest) simp_all
  then have "length (dropWhile isWhiteSpace rest) \<le> length (tl rest)"
    using length_dropWhile_le [of isWhiteSpace "tl rest"] by simp
  moreover have "length rest \<le> length s"
    using r by (simp add: length_dropWhile_le)
  ultimately show "(dropWhile isWhiteSpace rest, s) \<in> measure length"
    using ne by (cases rest) simp_all
qed

declare splitWords.simps [simp del]

definition join :: "jsstring list \<Rightarrow> jsstring" where
  \<comment> \<open>\<open>words.join('')\<close>\<close>
  "join ws = concat ws"

definition lookahead :: "jsstring \<Rightarrow> jsstring list \<Rightarrow> nat option" where
  \<comment> \<open>\<open>for (look = 1; look <= 3 && i + look < words.length; look++)\<close>, on the words from
      the cursor \<open>i\<close> on: the first \<open>look\<close> whose word is the target\<close>
  "lookahead target ws = find (\<lambda>look. look < length ws \<and> ws ! look = target) [1, 2, 3]"

definition pushNormal :: "DiffLineSegment list \<Rightarrow> jsstring \<Rightarrow> DiffLineSegment list" where
  \<comment> \<open>extend the last segment when it is a normal one, else push a new normal segment\<close>
  "pushNormal segments w =
     (if segments \<noteq> [] \<and> seg_type (last segments) = normal
      then butlast segments @ [(last segments)\<lparr>seg_value := seg_value (last segments) @ w\<rparr>]
      else segments @ [\<lparr>seg_value = w, seg_type = normal\<rparr>])"

lemma lookahead_range: "lookahead t ws = Some look \<Longrightarrow> 1 \<le> look \<and> look < length ws"
  by (auto simp: lookahead_def split: if_splits)

text \<open>
  The main loop of \<open>buildInlineDiffSegments\<close>.  The two cursors \<open>oi\<close> and \<open>ni\<close> only move
  forward, so the state is the words from each cursor on, and the segments pushed so far.
\<close>

function alignLoop ::
  "jsstring list \<Rightarrow> jsstring list \<Rightarrow> DiffLineSegment list \<Rightarrow> DiffLineSegment list" where
  "alignLoop [] [] segments = segments"
| "alignLoop [] (n # ns) segments = segments @ [\<lparr>seg_value = join (n # ns), seg_type = insert\<rparr>]"
| "alignLoop (w # ws) [] segments = segments @ [\<lparr>seg_value = join (w # ws), seg_type = delete\<rparr>]"
| "alignLoop (w # ws) (n # ns) segments =
     (if w = n then alignLoop ws ns (pushNormal segments w)
      else case lookahead w (n # ns) of
        Some look \<Rightarrow>
          alignLoop (w # ws) (drop look (n # ns))
            (segments @ [\<lparr>seg_value = join (take look (n # ns)), seg_type = insert\<rparr>])
      | None \<Rightarrow>
         (case lookahead n (w # ws) of
            Some look \<Rightarrow>
              alignLoop (drop look (w # ws)) (n # ns)
                (segments @ [\<lparr>seg_value = join (take look (w # ws)), seg_type = delete\<rparr>])
          | None \<Rightarrow>
              alignLoop ws ns
                (segments @ [\<lparr>seg_value = w, seg_type = delete\<rparr>,
                             \<lparr>seg_value = n, seg_type = insert\<rparr>])))"
  by pat_completeness auto
termination
  by (relation "measure (\<lambda>(ows, nws, segments). length ows + length nws)")
     (auto dest!: lookahead_range)

definition coalesceStep :: "DiffLineSegment list \<Rightarrow> DiffLineSegment \<Rightarrow> DiffLineSegment list" where
  "coalesceStep merged seg =
     (if merged \<noteq> [] \<and> seg_type (last merged) = seg_type seg
      then butlast merged @ [(last merged)\<lparr>seg_value := seg_value (last merged) @ seg_value seg\<rparr>]
      else merged @ [seg])"

definition buildInlineDiffSegments ::
  "jsstring \<Rightarrow> jsstring \<Rightarrow> ParseOptions \<Rightarrow> DiffLineSegment list" where
  "buildInlineDiffSegments oldContent newContent options =
     (let oldWords = splitWords oldContent;
          newWords = splitWords newContent;
          segments = alignLoop oldWords newWords []
      in foldl coalesceStep [] segments)"

section \<open>Lines of a hunk\<close>

definition changeToLine :: "RawChange \<Rightarrow> DiffLine" where
  "changeToLine change =
     \<lparr>line_type = rc_type change,
      line_oldLineNumber = rc_oldLineNumber change,
      line_newLineNumber = rc_newLineNumber change,
      line_lineNumber = rc_lineNumber change,
      line_content = [\<lparr>seg_value = rc_content change, seg_type = normal\<rparr>]\<rparr>"

definition mergedLine :: "RawChange \<Rightarrow> RawChange \<Rightarrow> ParseOptions \<Rightarrow> DiffLine" where
  \<comment> \<open>the object pushed for a merged pair; it has no \<open>lineNumber\<close>\<close>
  "mergedLine current next options =
     \<lparr>line_type = normal,
      line_oldLineNumber = rc_lineNumber current,
      line_newLineNumber = rc_lineNumber next,
      line_lineNumber = None,
      line_content = buildInlineDiffSegments (rc_content current) (rc_content next) options\<rparr>"

text \<open>
  The loop of \<open>mergeAdjacentLines\<close> reads \<open>changes[i]\<close> and \<open>changes[i + 1]\<close> and steps by one
  or by two; \<open>next\<close> is \<open>undefined\<close> at the last change, where the test fails.
\<close>

fun mergeAdjacentLines :: "RawChange list \<Rightarrow> ParseOptions \<Rightarrow> DiffLine list" where
  "mergeAdjacentLines [] options = []"
| "mergeAdjacentLines [current] options = [changeToLine current]"
| "mergeAdjacentLines (current # next # rest) options =
     (if rc_type current = delete \<and> rc_type next = insert \<and>
         isSimilarEnough (rc_content current) (rc_content next) (maxChangeRatio options)
      then mergedLine current next options # mergeAdjacentLines rest options
      else changeToLine current # mergeAdjacentLines (next # rest) options)"

record RawHunk =
  raw_changes :: "RawChange list"
  raw_oldStart :: int
  raw_oldLines :: int
  raw_newStart :: int
  raw_newLines :: int
  raw_content :: jsstring

definition processHunk :: "RawHunk \<Rightarrow> ParseOptions \<Rightarrow> DiffHunk" where
  "processHunk raw options =
     (let lines = (if mergeModifiedLines options
                   then mergeAdjacentLines (raw_changes raw) options
                   else map changeToLine (raw_changes raw))
      in \<lparr>hunk_content = raw_content raw,
          oldStart = raw_oldStart raw,
          oldLines = raw_oldLines raw,
          newStart = raw_newStart raw,
          newLines = raw_newLines raw,
          hunk_lines = lines\<rparr>)"

section \<open>The unified-diff parser\<close>

fun splitOn :: "code_unit \<Rightarrow> jsstring \<Rightarrow> jsstring list" where
  \<comment> \<open>\<open>text.split(sep)\<close> for a separator of one code unit\<close>
  "splitOn sep [] = [[]]"
| "splitOn sep (c # cs) =
     (if c = sep then [] # splitOn sep cs
      else (case splitOn sep cs of l # ls \<Rightarrow> (c # l) # ls | [] \<Rightarrow> [[c]]))"

definition parseInt :: "jsstring \<Rightarrow> int" where
  \<comment> \<open>\<open>parseInt(s, 10)\<close> on a non-empty string of decimal digits\<close>
  "parseInt s = foldl (\<lambda>n c. 10 * n + (uint c - 48)) 0 s"

definition extractPath :: "jsstring \<Rightarrow> jsstring" where
  \<comment> \<open>\<open>line.match(/^\+\+\+ (?:b\/)?(.*)/)?.[1] ?? ''\<close>\<close>
  "extractPath line =
     (if startsWith line (str ''+++ '') then
        let rest = drop 4 line;
            rest = (if startsWith rest (str ''b/'') then drop 2 rest else rest)
        in takeWhile (\<lambda>c. \<not> isLineTerminator c) rest
      else [])"

definition digits1 :: "jsstring \<Rightarrow> (jsstring \<times> jsstring) option" where
  \<comment> \<open>\<open>(\d+)\<close>: the longest run of digits, which must not be empty, and what follows it\<close>
  "digits1 s =
     (let d = takeWhile isDigit s in if d = [] then None else Some (d, dropWhile isDigit s))"

definition optLength :: "jsstring \<Rightarrow> jsstring option \<times> jsstring" where
  \<comment> \<open>\<open>(?:,(\d+))?\<close>\<close>
  "optLength s =
     (if startsWith s (str '','') then
        (case digits1 (drop 1 s) of Some (d, r) \<Rightarrow> (Some d, r) | None \<Rightarrow> (None, s))
      else (None, s))"

definition stripPrefix :: "jsstring \<Rightarrow> jsstring \<Rightarrow> jsstring option" where
  "stripPrefix p s = (if startsWith s p then Some (drop (length p) s) else None)"

definition hunkMatch ::
  "jsstring \<Rightarrow> (jsstring \<times> jsstring option \<times> jsstring \<times> jsstring option) option" where
  \<comment> \<open>\<open>line.match(/^@@ -(\d+)(?:,(\d+))? \+(\d+)(?:,(\d+))? @@(.*)/)\<close>: groups 1 to 4\<close>
  "hunkMatch line =
     (case stripPrefix (str ''@@ -'') line of None \<Rightarrow> None | Some s1 \<Rightarrow>
      case digits1 s1 of None \<Rightarrow> None | Some (g1, s2) \<Rightarrow>
      case optLength s2 of (g2, s3) \<Rightarrow>
      case stripPrefix (str '' +'') s3 of None \<Rightarrow> None | Some s4 \<Rightarrow>
      case digits1 s4 of None \<Rightarrow> None | Some (g3, s5) \<Rightarrow>
      case optLength s5 of (g4, s6) \<Rightarrow>
      case stripPrefix (str '' @@'') s6 of None \<Rightarrow> None | Some s7 \<Rightarrow>
        Some (g1, g2, g3, g4))"

record ParserState =
  files :: "FileDiff list"
  currentFile :: "FileDiff option"
  currentHunk :: "RawHunk option"
  oldLine :: int
  newLine :: int

definition pushHunk :: "FileDiff option \<Rightarrow> RawHunk option \<Rightarrow> ParseOptions \<Rightarrow> FileDiff option" where
  \<comment> \<open>\<open>if (currentHunk && currentFile) currentFile.hunks.push(processHunk(currentHunk, opts))\<close>\<close>
  "pushHunk cf ch opts =
     (case (cf, ch) of
        (Some f, Some h) \<Rightarrow> Some (f\<lparr>hunks := hunks f @ [hunk (processHunk h opts)]\<rparr>)
      | _ \<Rightarrow> cf)"

definition addChange :: "RawChange \<Rightarrow> RawHunk \<Rightarrow> RawHunk" where
  "addChange c h = h\<lparr>raw_changes := raw_changes h @ [c]\<rparr>"

definition parseLine :: "ParseOptions \<Rightarrow> ParserState \<Rightarrow> jsstring \<Rightarrow> ParserState" where
  "parseLine opts st line =
     (if startsWith line (str ''---'') then
        st\<lparr>currentFile := pushHunk (currentFile st) (currentHunk st) opts, currentHunk := None\<rparr>
      else if startsWith line (str ''+++'') then
        let path = extractPath line;
            files' = (case pushHunk (currentFile st) (currentHunk st) opts of
                        Some f \<Rightarrow> files st @ [f] | None \<Rightarrow> files st)
        in st\<lparr>files := files',
              currentFile := Some \<lparr>oldPath = path, newPath = path, file_type = modify, hunks = []\<rparr>,
              currentHunk := None\<rparr>
      else case hunkMatch line of
        Some (g1, g2, g3, g4) \<Rightarrow>
          let oldLine' = parseInt g1; newLine' = parseInt g3 in
          st\<lparr>currentFile := pushHunk (currentFile st) (currentHunk st) opts,
             oldLine := oldLine', newLine := newLine',
             currentHunk := Some
               \<lparr>raw_changes = [],
                raw_oldStart = oldLine',
                raw_oldLines = parseInt (case g2 of Some g \<Rightarrow> g | None \<Rightarrow> str ''1''),
                raw_newStart = newLine',
                raw_newLines = parseInt (case g4 of Some g \<Rightarrow> g | None \<Rightarrow> str ''1''),
                raw_content = line\<rparr>\<rparr>
      | None \<Rightarrow>
          if startsWith line (str ''diff '') \<or> startsWith line (str ''index '')
             \<or> startsWith line [0x5C] then st
          else case currentHunk st of
            None \<Rightarrow> st
          | Some h \<Rightarrow>
              if startsWith line (str ''+'') then
                st\<lparr>currentHunk := Some (addChange
                      \<lparr>rc_type = insert, rc_content = drop 1 line,
                       rc_lineNumber = Some (newLine st), rc_oldLineNumber = None,
                       rc_newLineNumber = Some (newLine st), rc_isNormal = None\<rparr> h),
                   newLine := newLine st + 1\<rparr>
              else if startsWith line (str ''-'') then
                st\<lparr>currentHunk := Some (addChange
                      \<lparr>rc_type = delete, rc_content = drop 1 line,
                       rc_lineNumber = Some (oldLine st), rc_oldLineNumber = Some (oldLine st),
                       rc_newLineNumber = None, rc_isNormal = None\<rparr> h),
                   oldLine := oldLine st + 1\<rparr>
              else if startsWith line (str '' '') \<or> line = [] then
                st\<lparr>currentHunk := Some (addChange
                      \<lparr>rc_type = normal, rc_content = drop 1 line,
                       rc_lineNumber = None, rc_oldLineNumber = Some (oldLine st),
                       rc_newLineNumber = Some (newLine st), rc_isNormal = Some True\<rparr> h),
                   oldLine := oldLine st + 1, newLine := newLine st + 1\<rparr>
              else st)"

definition hasLineOfKind :: "kind \<Rightarrow> FileDiff \<Rightarrow> bool" where
  \<comment> \<open>\<open>file.hunks.some(h => h.type === 'hunk' && h.lines.some(l => l.type === k))\<close>\<close>
  "hasLineOfKind k file =
     list_ex (\<lambda>b. case b of hunk h \<Rightarrow> list_ex (\<lambda>l. line_type l = k) (hunk_lines h)
                            | skip _ \<Rightarrow> False) (hunks file)"

definition deriveType :: "FileDiff \<Rightarrow> FileDiff" where
  "deriveType file =
     (let hasAdds = hasLineOfKind insert file; hasDels = hasLineOfKind delete file in
      if hasAdds \<and> \<not> hasDels then file\<lparr>file_type := add\<rparr>
      else if hasDels \<and> \<not> hasAdds then file\<lparr>file_type := delete_file\<rparr>
      else file\<lparr>file_type := modify\<rparr>)"

definition initialState :: ParserState where
  "initialState = \<lparr>files = [], currentFile = None, currentHunk = None, oldLine = 0, newLine = 0\<rparr>"

definition finish :: "ParseOptions \<Rightarrow> ParserState \<Rightarrow> FileDiff list" where
  \<comment> \<open>after the last line: close the open hunk and the open file\<close>
  "finish opts st =
     (case pushHunk (currentFile st) (currentHunk st) opts of
        Some f \<Rightarrow> files st @ [f] | None \<Rightarrow> files st)"

definition parseUnifiedDiff :: "jsstring \<Rightarrow> ParseOptions \<Rightarrow> FileDiff list" where
  \<comment> \<open>the options are the defaults overridden by the caller's, already merged\<close>
  "parseUnifiedDiff diffText opts =
     map deriveType (finish opts (foldl (parseLine opts) initialState (splitOn 0xA diffText)))"

section \<open>Skip blocks and statistics\<close>

function digitsOf :: "nat \<Rightarrow> jsstring" where
  "digitsOf n = (if n < 10 then [of_nat (48 + n)] else digitsOf (n div 10) @ [of_nat (48 + n mod 10)])"
  by pat_completeness auto
termination
  by (relation "measure id") auto

declare digitsOf.simps [simp del]

definition numberToString :: "int \<Rightarrow> jsstring" where
  \<comment> \<open>the decimal form a template literal gives an integer\<close>
  "numberToString i = (if i < 0 then 0x2D # digitsOf (nat (- i)) else digitsOf (nat i))"

definition skipStep :: "block list \<times> int \<Rightarrow> DiffHunk \<Rightarrow> block list \<times> int" where
  \<comment> \<open>one turn of the loop on the pair \<open>(result, lastHunkLine)\<close>\<close>
  "skipStep st h =
     (let result = fst st; lastHunkLine = snd st;
          distanceToLastHunk = oldStart h - lastHunkLine;
          result = (if distanceToLastHunk > 0
                    then result @ [skip \<lparr>skip_count = distanceToLastHunk,
                                          skip_content = numberToString distanceToLastHunk
                                                           @ str '' lines hidden''\<rparr>]
                    else result)
      in (result @ [hunk h], max (oldStart h + oldLines h) lastHunkLine))"

definition insertSkipBlocks :: "DiffHunk list \<Rightarrow> block list" where
  "insertSkipBlocks hs = fst (foldl skipStep ([], 1) hs)"

record DiffStats =
  additions :: nat
  deletions :: nat

definition countLine :: "DiffStats \<Rightarrow> DiffLine \<Rightarrow> DiffStats" where
  "countLine st l =
     (if line_type l = insert then st\<lparr>additions := additions st + 1\<rparr>
      else if line_type l = delete then st\<lparr>deletions := deletions st + 1\<rparr>
      else st)"

definition countBlock :: "DiffStats \<Rightarrow> block \<Rightarrow> DiffStats" where
  "countBlock st b = (case b of hunk h \<Rightarrow> foldl countLine st (hunk_lines h) | skip _ \<Rightarrow> st)"

definition countDiffStats :: "block list \<Rightarrow> DiffStats" where
  "countDiffStats bs = foldl countBlock \<lparr>additions = 0, deletions = 0\<rparr> bs"

section \<open>Comparing two file trees\<close>

text \<open>
  The declaration of \<open>PackageFileTree\<close> is not among the sources; the node is modelled from
  the specification's data model, \<open>{path, type: file|directory, size?, hash?, children?}\<close>,
  and from the fields that \<open>compareFileTrees\<close> reads.
\<close>

datatype node_type = File | Directory

datatype PackageFileTree =
  PackageFileTree
    (node_path: jsstring)
    (node_type: node_type)
    (node_size: "int option")
    (node_hash: "jsstring option")
    (node_children: "PackageFileTree list option")

text \<open>
  A \<open>Map\<close> keeps its keys in the order of their first insertion, and \<open>for ... of\<close> visits
  them in that order: it is a list of pairs with distinct keys.
\<close>

type_synonym 'v jsmap = "(jsstring \<times> 'v) list"

definition mapSet :: "jsstring \<Rightarrow> 'v \<Rightarrow> 'v jsmap \<Rightarrow> 'v jsmap" where
  "mapSet k v m =
     (if k \<in> fst ` set m then map (\<lambda>(k', v'). if k' = k then (k', v) else (k', v')) m
      else m @ [(k, v)])"

definition mapGet :: "'v jsmap \<Rightarrow> jsstring \<Rightarrow> 'v option" where
  "mapGet m k = map_of m k"

definition mapHas :: "'v jsmap \<Rightarrow> jsstring \<Rightarrow> bool" where
  "mapHas m k \<longleftrightarrow> k \<in> fst ` set m"

fun traverseNode :: "PackageFileTree \<Rightarrow> PackageFileTree jsmap \<Rightarrow> PackageFileTree jsmap"
  and traverse :: "PackageFileTree list \<Rightarrow> PackageFileTree jsmap \<Rightarrow> PackageFileTree jsmap" where
  "traverseNode (PackageFileTree p t s h cs) result =
     (let result = mapSet p (PackageFileTree p t s h cs) result in
      case cs of None \<Rightarrow> result | Some ns \<Rightarrow> traverse ns result)"
| "traverse [] result = result"
| "traverse (n # ns) result = traverse ns (traverseNode n result)"

definition flattenTree :: "PackageFileTree list \<Rightarrow> PackageFileTree jsmap" where
  "flattenTree tree = traverse tree []"

datatype file_change_kind = file_added | file_removed | file_modified

record FileChange =
  fc_path :: jsstring
  fc_type :: file_change_kind
  fc_oldSize :: "int option"
  fc_newSize :: "int option"

record FileChanges =
  added :: "FileChange list"
  removed :: "FileChange list"
  modified :: "FileChange list"
  truncated :: bool

definition MAX_FILES_COMPARE :: nat where
  "MAX_FILES_COMPARE = 1000"

definition truthy :: "jsstring option \<Rightarrow> bool" where
  \<comment> \<open>a string that is neither \<open>undefined\<close>, \<open>null\<close> nor empty\<close>
  "truthy s \<longleftrightarrow> (case s of None \<Rightarrow> False | Some v \<Rightarrow> v \<noteq> [])"

definition hasChanged :: "PackageFileTree \<Rightarrow> PackageFileTree \<Rightarrow> bool" where
  "hasChanged fromNode toNode =
     (if truthy (node_hash fromNode) \<and> truthy (node_hash toNode)
      then node_hash fromNode \<noteq> node_hash toNode
      else case (node_size fromNode, node_size toNode) of
        (Some a, Some b) \<Rightarrow> a \<noteq> b
      | _ \<Rightarrow> False)"

definition overLimit :: "FileChanges \<Rightarrow> bool" where
  "overLimit st \<longleftrightarrow>
     length (added st) + length (removed st) + length (modified st) \<ge> MAX_FILES_COMPARE"

definition pushAdded :: "jsstring \<Rightarrow> PackageFileTree \<Rightarrow> FileChanges \<Rightarrow> FileChanges" where
  "pushAdded p toNode st =
     st\<lparr>added := added st @
       [\<lparr>fc_path = p, fc_type = file_added, fc_oldSize = None, fc_newSize = node_size toNode\<rparr>]\<rparr>"

definition pushRemoved :: "jsstring \<Rightarrow> PackageFileTree \<Rightarrow> FileChanges \<Rightarrow> FileChanges" where
  "pushRemoved p fromNode st =
     st\<lparr>removed := removed st @
       [\<lparr>fc_path = p, fc_type = file_removed, fc_oldSize = node_size fromNode, fc_newSize = None\<rparr>]\<rparr>"

definition pushModified ::
  "jsstring \<Rightarrow> PackageFileTree \<Rightarrow> PackageFileTree \<Rightarrow> FileChanges \<Rightarrow> FileChanges" where
  "pushModified p fromNode toNode st =
     st\<lparr>modified := modified st @
       [\<lparr>fc_path = p, fc_type = file_modified, fc_oldSize = node_size fromNode,
         fc_newSize = node_size toNode\<rparr>]\<rparr>"

definition classifyTo ::
  "PackageFileTree jsmap \<Rightarrow> jsstring \<Rightarrow> PackageFileTree \<Rightarrow> FileChanges \<Rightarrow> FileChanges" where
  \<comment> \<open>the body of the first loop, after the test of the limit\<close>
  "classifyTo fromFiles p toNode st =
     (let fromNode = mapGet fromFiles p in
      if node_type toNode = Directory then
        (case fromNode of
           Some f \<Rightarrow> if node_type f = File then pushRemoved p f st else st
         | None \<Rightarrow> st)
      else
        (case fromNode of
           None \<Rightarrow> pushAdded p toNode st
         | Some f \<Rightarrow>
             if node_type f = Directory then pushAdded p toNode st
             else if hasChanged f toNode then pushModified p f toNode st
             else st))"

fun scanTo ::
  "PackageFileTree jsmap \<Rightarrow> PackageFileTree jsmap \<Rightarrow> FileChanges \<Rightarrow> FileChanges" where
  "scanTo fromFiles [] st = st"
| "scanTo fromFiles ((p, toNode) # rest) st =
     (if overLimit st then st\<lparr>truncated := True\<rparr>
      else scanTo fromFiles rest (classifyTo fromFiles p toNode st))"

fun scanFrom ::
  "PackageFileTree jsmap \<Rightarrow> PackageFileTree jsmap \<Rightarrow> FileChanges \<Rightarrow> FileChanges" where
  "scanFrom toFiles [] st = st"
| "scanFrom toFiles ((p, fromNode) # rest) st =
     (if node_type fromNode = Directory then scanFrom toFiles rest st
      else if overLimit st then st\<lparr>truncated := True\<rparr>
      else scanFrom toFiles rest (if \<not> mapHas toFiles p then pushRemoved p fromNode st else st))"

text \<open>
  \<open>Array.prototype.sort\<close> with a comparison function is a stable sort: an element goes
  before the first element that it does not compare greater than.  The comparison itself,
  \<open>String.prototype.localeCompare\<close>, belongs to the host and its locale data; it is a
  parameter of the functions that sort with it.
\<close>

fun insertBy :: "('a \<Rightarrow> 'a \<Rightarrow> int) \<Rightarrow> 'a \<Rightarrow> 'a list \<Rightarrow> 'a list" where
  "insertBy cmp x [] = [x]"
| "insertBy cmp x (y # ys) = (if cmp x y \<le> 0 then x # y # ys else y # insertBy cmp x ys)"

definition sortBy :: "('a \<Rightarrow> 'a \<Rightarrow> int) \<Rightarrow> 'a list \<Rightarrow> 'a list" where
  "sortBy cmp xs = foldr (insertBy cmp) xs []"

definition byPath :: "(jsstring \<Rightarrow> jsstring \<Rightarrow> int) \<Rightarrow> FileChange \<Rightarrow> FileChange \<Rightarrow> int" where
  \<comment> \<open>\<open>(a, b) => a.path.localeCompare(b.path)\<close>\<close>
  "byPath localeCompare a b = localeCompare (fc_path a) (fc_path b)"

definition compareFileTrees ::
  "(jsstring \<Rightarrow> jsstring \<Rightarrow> int) \<Rightarrow> PackageFileTree list \<Rightarrow> PackageFileTree list \<Rightarrow> FileChanges" where
  "compareFileTrees localeCompare fromTree toTree =
     (let fromFiles = flattenTree fromTree;
          toFiles = flattenTree toTree;
          st = \<lparr>added = [], removed = [], modified = [], truncated = False\<rparr>;
          st = scanTo fromFiles toFiles st;
          st = scanFrom toFiles fromFiles st
      in \<lparr>added = sortBy (byPath localeCompare) (added st),
          removed = sortBy (byPath localeCompare) (removed st),
          modified = sortBy (byPath localeCompare) (modified st),
          truncated = truncated st\<rparr>)"

section \<open>Comparing the dependencies of two manifests\<close>

datatype section_name = dependencies | devDependencies | peerDependencies | optionalDependencies

datatype dep_change_kind = dep_added | dep_removed | dep_updated

datatype semver_bucket = major | minor | patch | prerelease

text \<open>
  What reading a property of a section gives: the string stored under an own key, or, for
  a name the section does not have itself, what the section inherits under that name from
  \<open>Object.prototype\<close> (a function, or the prototype itself for \<open>__proto__\<close>).  Two inherited
  values are the same object exactly when their names are the same.  \<open>None\<close> stands for
  \<open>undefined\<close> and \<open>null\<close>.
\<close>

datatype jsvalue = StringValue jsstring | PrototypeMember jsstring

record DependencyChange =
  dep_name :: jsstring
  dep_section :: section_name
  dep_from :: "jsvalue option"
  dep_to :: "jsvalue option"
  dep_type :: dep_change_kind
  dep_semverDiff :: "semver_bucket option"

text \<open>
  A section of a manifest is a \<open>Record<string, string>\<close>: its own keys in the order of
  \<open>Object.keys\<close>, each with its version.  A manifest gives each section or lacks it, and
  the manifest itself may be \<open>null\<close>.
\<close>

type_synonym deps = "(jsstring \<times> jsstring) list"
type_synonym manifest = "section_name \<Rightarrow> deps option"

definition sectionOf :: "manifest option \<Rightarrow> section_name \<Rightarrow> deps" where
  \<comment> \<open>\<open>pkg?.[section] ?? {}\<close>\<close>
  "sectionOf pkg sec =
     (case pkg of None \<Rightarrow> [] | Some m \<Rightarrow> (case m sec of None \<Rightarrow> [] | Some d \<Rightarrow> d))"

definition objectPrototypeNames :: "jsstring list" where
  \<comment> \<open>the properties of \<open>Object.prototype\<close>\<close>
  "objectPrototypeNames =
     [str ''constructor'', str ''hasOwnProperty'', str ''isPrototypeOf'',
      str ''propertyIsEnumerable'', str ''toLocaleString'', str ''toString'', str ''valueOf'',
      str ''__proto__'', str ''__defineGetter__'', str ''__defineSetter__'',
      str ''__lookupGetter__'', str ''__lookupSetter__'']"

definition getProperty :: "deps \<Rightarrow> jsstring \<Rightarrow> jsvalue option" where
  \<comment> \<open>\<open>deps[name] ?? null\<close>: the own property, else the inherited one\<close>
  "getProperty obj name =
     (case map_of obj name of
        Some v \<Rightarrow> Some (StringValue v)
      | None \<Rightarrow> if name \<in> set objectPrototypeNames then Some (PrototypeMember name) else None)"

definition truthyValue :: "jsvalue option \<Rightarrow> bool" where
  \<comment> \<open>every object is truthy; a string is truthy unless it is empty\<close>
  "truthyValue v \<longleftrightarrow>
     (case v of None \<Rightarrow> False | Some (StringValue s) \<Rightarrow> s \<noteq> [] | Some (PrototypeMember n) \<Rightarrow> True)"

definition newSet :: "jsstring list \<Rightarrow> jsstring list" where
  \<comment> \<open>\<open>new Set(xs)\<close>, in the order of iteration: first occurrences\<close>
  "newSet xs = foldl (\<lambda>acc x. if x \<in> set acc then acc else acc @ [x]) [] xs"

text \<open>
  \<open>diff\<close> of the \<open>semver\<close> package is a collaborator: it returns \<open>null\<close> or the name of a
  difference, or throws on a version that it cannot parse.
\<close>

datatype 'a outcome = Threw | Returned 'a

definition stripRange :: "jsstring \<Rightarrow> jsstring" where
  \<comment> \<open>\<open>version.replace(/^[\^~>=<]+/, '')\<close>\<close>
  "stripRange v = dropWhile (\<lambda>c. c \<in> set (str ''^~>=<'')) v"

definition bucketOf :: "jsstring option outcome \<Rightarrow> semver_bucket option" where
  "bucketOf r =
     (case r of
        Threw \<Rightarrow> None
      | Returned None \<Rightarrow> None
      | Returned (Some d) \<Rightarrow>
          if d = [] then None
          else if d = str ''premajor'' \<or> d = str ''preminor'' \<or> d = str ''prepatch''
            then Some prerelease
          else if d = str ''major'' then Some major
          else if d = str ''minor'' then Some minor
          else if d = str ''patch'' then Some patch
          else if d = str ''prerelease'' then Some prerelease
          else None)"

definition semverBucket ::
  "(jsstring \<Rightarrow> jsstring \<Rightarrow> jsstring option outcome) \<Rightarrow> jsvalue option \<Rightarrow> jsvalue option
     \<Rightarrow> semver_bucket option" where
  \<comment> \<open>the \<open>try\<close> block: \<open>.replace\<close> on a value that is not a string throws a \<open>TypeError\<close>,
      which the empty \<open>catch\<close> swallows like the errors of \<open>semver\<close>\<close>
  "semverBucket semverDiff fromVersion toVersion =
     (case (fromVersion, toVersion) of
        (Some (StringValue f), Some (StringValue t)) \<Rightarrow>
          bucketOf (semverDiff (stripRange f) (stripRange t))
      | _ \<Rightarrow> None)"

definition dependencyChange ::
  "(jsstring \<Rightarrow> jsstring \<Rightarrow> jsstring option outcome) \<Rightarrow> section_name \<Rightarrow> deps \<Rightarrow> deps \<Rightarrow> jsstring
     \<Rightarrow> DependencyChange option" where
  \<comment> \<open>the body of the loop over the names: \<open>None\<close> is \<open>continue\<close>\<close>
  "dependencyChange semverDiff sec fromDeps toDeps name =
     (let fromVersion = getProperty fromDeps name;
          toVersion = getProperty toDeps name
      in if fromVersion = toVersion then None
         else
           let type = (if \<not> truthyValue fromVersion then dep_added
                       else if \<not> truthyValue toVersion then dep_removed
                       else dep_updated);
               semverDiffType =
                 (if type = dep_updated \<and> truthyValue fromVersion \<and> truthyValue toVersion
                  then semverBucket semverDiff fromVersion toVersion
                  else None)
           in Some \<lparr>dep_name = name, dep_section = sec, dep_from = fromVersion,
                    dep_to = toVersion, dep_type = type, dep_semverDiff = semverDiffType\<rparr>)"

definition sections :: "section_name list" where
  "sections = [dependencies, devDependencies, peerDependencies, optionalDependencies]"

definition sectionIndex :: "section_name \<Rightarrow> int" where
  \<comment> \<open>\<open>sections.indexOf(s)\<close>\<close>
  "sectionIndex s =
     (case s of dependencies \<Rightarrow> 0 | devDependencies \<Rightarrow> 1 | peerDependencies \<Rightarrow> 2
      | optionalDependencies \<Rightarrow> 3)"

definition sectionChanges ::
  "(jsstring \<Rightarrow> jsstring \<Rightarrow> jsstring option outcome) \<Rightarrow> manifest option \<Rightarrow> manifest option
     \<Rightarrow> section_name \<Rightarrow> DependencyChange list" where
  "sectionChanges semverDiff fromPkg toPkg sec =
     (let fromDeps = sectionOf fromPkg sec;
          toDeps = sectionOf toPkg sec;
          allNames = newSet (map fst fromDeps @ map fst toDeps)
      in List.map_filter (dependencyChange semverDiff sec fromDeps toDeps) allNames)"

definition bySectionThenName ::
  "(jsstring \<Rightarrow> jsstring \<Rightarrow> int) \<Rightarrow> DependencyChange \<Rightarrow> DependencyChange \<Rightarrow> int" where
  "bySectionThenName localeCompare a b =
     (if dep_section a \<noteq> dep_section b
      then sectionIndex (dep_section a) - sectionIndex (dep_section b)
      else localeCompare (dep_name a) (dep_name b))"

definition compareDependencies ::
  "(jsstring \<Rightarrow> jsstring \<Rightarrow> int) \<Rightarrow> (jsstring \<Rightarrow> jsstring \<Rightarrow> jsstring option outcome)
     \<Rightarrow> manifest option \<Rightarrow> manifest option \<Rightarrow> DependencyChange list" where
  "compareDependencies localeCompare semverDiff fromPkg toPkg =
     sortBy (bySectionThenName localeCompare)
       (concat (map (sectionChanges semverDiff fromPkg toPkg) sections))"

section \<open>Notions of the specification, and sample inputs\<close>

subsection \<open>Mismatches of two strings\<close>

text \<open>
  The count of the specification: walk both strings up to the longer length and count the
  positions where the characters differ, a position past the end of the shorter string
  being a difference.
\<close>

fun positionMismatches :: "jsstring \<Rightarrow> jsstring \<Rightarrow> nat" where
  "positionMismatches [] ys = length ys"
| "positionMismatches (x # xs) [] = Suc (length xs)"
| "positionMismatches (x # xs) (y # ys) = (if x \<noteq> y then 1 else 0) + positionMismatches xs ys"

subsection \<open>The two sides of a segment list\<close>

text \<open>
  The two readings of a segment list: the old side is the text of the delete and normal
  segments in order, the new side the text of the insert and normal segments.
\<close>

definition oldSide :: "DiffLineSegment list \<Rightarrow> jsstring" where
  "oldSide segs = concat (map seg_value (filter (\<lambda>s. seg_type s = delete \<or> seg_type s = normal) segs))"

definition newSide :: "DiffLineSegment list \<Rightarrow> jsstring" where
  "newSide segs = concat (map seg_value (filter (\<lambda>s. seg_type s = insert \<or> seg_type s = normal) segs))"

subsection \<open>The skip-block inserter, by its cursor\<close>

text \<open>
  The inserter as the specification words it: with the cursor at \<open>cursor\<close>, a hunk is
  preceded by a skip block of \<open>hunk.oldStart - cursor\<close> lines when that gap is positive,
  and the cursor moves to \<open>max(hunk.oldStart + hunk.oldLines, cursor)\<close>.
\<close>

definition gapBlock :: "int \<Rightarrow> block list" where
  "gapBlock gap =
     (if gap > 0
      then [skip \<lparr>skip_count = gap, skip_content = numberToString gap @ str '' lines hidden''\<rparr>]
      else [])"

fun skipBlocksFrom :: "int \<Rightarrow> DiffHunk list \<Rightarrow> block list" where
  "skipBlocksFrom cursor [] = []"
| "skipBlocksFrom cursor (h # hs) =
     gapBlock (oldStart h - cursor) @ [hunk h]
       @ skipBlocksFrom (max (oldStart h + oldLines h) cursor) hs"

definition positiveSkip :: "block \<Rightarrow> bool" where
  "positiveSkip b = (case b of skip s \<Rightarrow> 0 < skip_count s | hunk h \<Rightarrow> True)"

definition hunksOf :: "block list \<Rightarrow> DiffHunk list" where
  "hunksOf bs = List.map_filter (\<lambda>b. case b of hunk h \<Rightarrow> Some h | skip s \<Rightarrow> None) bs"

text \<open>The hunk of scenario D of the specification.\<close>

definition hunkAt50 :: DiffHunk where
  "hunkAt50 = \<lparr>hunk_content = str ''@@ -50,5 +50,5 @@'', oldStart = 50, oldLines = 5,
                newStart = 50, newLines = 5, hunk_lines = []\<rparr>"

subsection \<open>Merged pairs, change by change\<close>

text \<open>
  The hunk processor as the specification words it, change by change.  The change at
  index \<open>i\<close> opens a pair when it is a delete, the next change is an insert, and the two
  texts are similar enough.  Such a pair gives one normal line with the old line number of
  the delete, the new line number of the insert and the aligner's segments; the second
  change of a pair gives nothing more; every other change gives its own line with a single
  segment.
\<close>

definition mergeable :: "ParseOptions \<Rightarrow> RawChange list \<Rightarrow> nat \<Rightarrow> bool" where
  "mergeable options changes i \<longleftrightarrow>
     i + 1 < length changes \<and>
     rc_type (changes ! i) = delete \<and>
     rc_type (changes ! (i + 1)) = insert \<and>
     isSimilarEnough (rc_content (changes ! i)) (rc_content (changes ! (i + 1)))
       (maxChangeRatio options)"

definition linesAt :: "ParseOptions \<Rightarrow> RawChange list \<Rightarrow> nat \<Rightarrow> DiffLine list" where
  "linesAt options changes i =
     (if mergeable options changes i then
        [\<lparr>line_type = normal,
          line_oldLineNumber = rc_lineNumber (changes ! i),
          line_newLineNumber = rc_lineNumber (changes ! (i + 1)),
          line_lineNumber = None,
          line_content = buildInlineDiffSegments (rc_content (changes ! i))
                           (rc_content (changes ! (i + 1))) options\<rparr>]
      else if 0 < i \<and> mergeable options changes (i - 1) then []
      else [\<lparr>line_type = rc_type (changes ! i),
             line_oldLineNumber = rc_oldLineNumber (changes ! i),
             line_newLineNumber = rc_newLineNumber (changes ! i),
             line_lineNumber = rc_lineNumber (changes ! i),
             line_content = [\<lparr>seg_value = rc_content (changes ! i), seg_type = normal\<rparr>]\<rparr>])"

definition mergedLines :: "ParseOptions \<Rightarrow> RawChange list \<Rightarrow> DiffLine list" where
  "mergedLines options changes = concat (map (linesAt options changes) [0..<length changes])"

text \<open>
  A hunk of three changes: a context line, then a deleted line and the inserted line that
  replaces it; and the two lines it is processed to.
\<close>

definition sampleChanges :: "RawChange list" where
  "sampleChanges =
     [\<lparr>rc_type = normal, rc_content = str ''k'', rc_lineNumber = None,
       rc_oldLineNumber = Some 1, rc_newLineNumber = Some 1, rc_isNormal = Some True\<rparr>,
      \<lparr>rc_type = delete, rc_content = str ''a x'', rc_lineNumber = Some 2,
       rc_oldLineNumber = Some 2, rc_newLineNumber = None, rc_isNormal = None\<rparr>,
      \<lparr>rc_type = insert, rc_content = str ''a y'', rc_lineNumber = Some 2,
       rc_oldLineNumber = None, rc_newLineNumber = Some 2, rc_isNormal = None\<rparr>]"

definition sampleHunk :: RawHunk where
  "sampleHunk = \<lparr>raw_changes = sampleChanges, raw_oldStart = 1, raw_oldLines = 2,
     raw_newStart = 1, raw_newLines = 2, raw_content = str ''@@ -1,2 +1,2 @@''\<rparr>"

definition sampleLines :: "DiffLine list" where
  "sampleLines =
     [\<lparr>line_type = normal, line_oldLineNumber = Some 1, line_newLineNumber = Some 1,
       line_lineNumber = None,
       line_content = [\<lparr>seg_value = str ''k'', seg_type = normal\<rparr>]\<rparr>,
      \<lparr>line_type = normal, line_oldLineNumber = Some 2, line_newLineNumber = Some 2,
       line_lineNumber = None,
       line_content = [\<lparr>seg_value = str ''a '', seg_type = normal\<rparr>,
                       \<lparr>seg_value = str ''x'', seg_type = delete\<rparr>,
                       \<lparr>seg_value = str ''y'', seg_type = insert\<rparr>]\<rparr>]"

subsection \<open>Lines of a kind\<close>

text \<open>
  The number of lines of one kind in the hunks of a block list, skip blocks counting for
  nothing; the statistics of each file of a diff text; and a diff text with one line
  modified.
\<close>

definition linesOfKind :: "kind \<Rightarrow> block list \<Rightarrow> nat" where
  "linesOfKind k bs =
     sum_list (map (\<lambda>b. case b of hunk h \<Rightarrow> length (filter (\<lambda>l. line_type l = k) (hunk_lines h))
                              | skip s \<Rightarrow> 0) bs)"

definition statsOf :: "jsstring \<Rightarrow> ParseOptions \<Rightarrow> DiffStats list" where
  "statsOf diffText options = map (\<lambda>f. countDiffStats (hunks f)) (parseUnifiedDiff diffText options)"

definition modifiedLineDiff :: jsstring where
  "modifiedLineDiff =
     str ''+++ b/f'' @ [0xA] @ str ''@@ -1 +1 @@'' @ [0xA] @ str ''-a x'' @ [0xA] @ str ''+a y''"

subsection \<open>Paths of file entries\<close>

text \<open>
  The two paths of a file entry, the paths of the entries a parser state holds (the closed
  files, then the open one), and the lines that open a file entry.
\<close>

definition pathPair :: "FileDiff \<Rightarrow> jsstring \<times> jsstring" where
  "pathPair f = (oldPath f, newPath f)"

definition openedPaths :: "ParserState \<Rightarrow> (jsstring \<times> jsstring) list" where
  "openedPaths st =
     map pathPair (files st) @ (case currentFile st of Some f \<Rightarrow> [pathPair f] | None \<Rightarrow> [])"

definition newFileLines :: "jsstring list \<Rightarrow> jsstring list" where
  "newFileLines ls = filter (\<lambda>l. startsWith l (str ''+++'')) ls"

subsection \<open>Consistent comparisons and ascending lists\<close>

text \<open>
  A comparison is consistent when it is total and transitive.  A list is ascending for a
  comparison when no element compares greater than a later one.
\<close>

definition consistentComparator :: "('a \<Rightarrow> 'a \<Rightarrow> int) \<Rightarrow> bool" where
  "consistentComparator cmp \<longleftrightarrow>
     (\<forall>a b. cmp a b \<le> 0 \<or> cmp b a \<le> 0) \<and>
     (\<forall>a b c. cmp a b \<le> 0 \<longrightarrow> cmp b c \<le> 0 \<longrightarrow> cmp a c \<le> 0)"

definition ascending :: "('a \<Rightarrow> 'a \<Rightarrow> int) \<Rightarrow> 'a list \<Rightarrow> bool" where
  "ascending cmp xs = sorted_wrt (\<lambda>a b. cmp a b \<le> 0) xs"

subsection \<open>A sample pair of manifests\<close>

text \<open>
  Scenario C of the specification, with a \<open>semver\<close> that knows the one difference asked
  for and a comparison that leaves the order alone.
\<close>

definition manifestWith :: "deps \<Rightarrow> manifest" where
  "manifestWith d = (\<lambda>s. if s = dependencies then Some d else None)"

definition minorDiff :: "jsstring \<Rightarrow> jsstring \<Rightarrow> jsstring option outcome" where
  "minorDiff a b =
     (if a = str ''4.0.0'' \<and> b = str ''4.1.0'' then Returned (Some (str ''minor'')) else Threw)"

definition noOrder :: "jsstring \<Rightarrow> jsstring \<Rightarrow> int" where
  "noOrder a b = 0"

definition lodashChange :: DependencyChange where
  "lodashChange =
     \<lparr>dep_name = str ''lodash'', dep_section = dependencies,
      dep_from = Some (StringValue (str ''^4.0.0'')), dep_to = Some (StringValue (str ''^4.1.0'')),
      dep_type = dep_updated, dep_semverDiff = Some minor\<rparr>"

text \<open>
  A package named \<open>constructor\<close> that only the to manifest has: the from side reads the
  inherited \<open>constructor\<close>, so the change is an update from that function.
\<close>

definition constructorChange :: DependencyChange where
  "constructorChange =
     \<lparr>dep_name = str ''constructor'', dep_section = dependencies,
      dep_from = Some (PrototypeMember (str ''constructor'')),
      dep_to = Some (StringValue (str ''1.0.0'')),
      dep_type = dep_updated, dep_semverDiff = None\<rparr>"

subsection \<open>Counting changes, and trees that differ by added files\<close>

text \<open>
  The running count of the comparison, and its invariant: the count never passes the cap,
  and the comparison is marked truncated only with the count at the cap.
\<close>

definition totalChanges :: "FileChanges \<Rightarrow> nat" where
  "totalChanges st = length (added st) + length (removed st) + length (modified st)"

definition withinCap :: "FileChanges \<Rightarrow> bool" where
  "withinCap st \<longleftrightarrow>
     totalChanges st \<le> MAX_FILES_COMPARE \<and> (truncated st \<longrightarrow> totalChanges st = MAX_FILES_COMPARE)"

text \<open>
  Two trees that differ only by added files: every path of the from tree is in the to tree
  with a node of the same type that has not changed, and the new files are the files of
  the to tree whose path the from tree lacks.
\<close>

definition isNewFile :: "PackageFileTree jsmap \<Rightarrow> jsstring \<times> PackageFileTree \<Rightarrow> bool" where
  "isNewFile fromFiles e \<longleftrightarrow> node_type (snd e) = File \<and> \<not> mapHas fromFiles (fst e)"

definition unchangedIn :: "PackageFileTree jsmap \<Rightarrow> jsstring \<times> PackageFileTree \<Rightarrow> bool" where
  "unchangedIn toFiles e =
     (case mapGet toFiles (fst e) of
        Some t \<Rightarrow> node_type t = node_type (snd e) \<and> \<not> hasChanged (snd e) t
      | None \<Rightarrow> False)"

definition onlyAdditions :: "PackageFileTree jsmap \<Rightarrow> PackageFileTree jsmap \<Rightarrow> bool" where
  "onlyAdditions fromFiles toFiles = list_all (unchangedIn toFiles) fromFiles"

definition addedChange :: "jsstring \<times> PackageFileTree \<Rightarrow> FileChange" where
  "addedChange e =
     \<lparr>fc_path = fst e, fc_type = file_added, fc_oldSize = None, fc_newSize = node_size (snd e)\<rparr>"

text \<open>A flat tree of \<open>n\<close> files with the names \<open>a\<close>, \<open>aa\<close>, \<open>aaa\<close>, ...\<close>

definition fileNamed :: "nat \<Rightarrow> PackageFileTree" where
  "fileNamed i = PackageFileTree (replicate (Suc i) 0x61) File (Some (int i)) None None"

definition manyFiles :: "nat \<Rightarrow> PackageFileTree list" where
  "manyFiles n = map fileNamed [0..<n]"

text \<open>
  The nodes of a tree, each node before its children and the children in their order, and
  their paths.  Two trees differ only by added files when every node of the from tree has a
  node of the to tree with its path and its type that has not changed; the new files are
  then the files among the nodes of the to tree whose path no node of the from tree has.
\<close>

fun nodesOf :: "PackageFileTree \<Rightarrow> PackageFileTree list"
  and allNodes :: "PackageFileTree list \<Rightarrow> PackageFileTree list" where
  "nodesOf (PackageFileTree p t s h cs) =
     PackageFileTree p t s h cs # (case cs of None \<Rightarrow> [] | Some ns \<Rightarrow> allNodes ns)"
| "allNodes [] = []"
| "allNodes (n # ns) = nodesOf n @ allNodes ns"

definition pathsOf :: "PackageFileTree list \<Rightarrow> jsstring list" where
  "pathsOf tree = map node_path (allNodes tree)"

definition carriedOver :: "PackageFileTree list \<Rightarrow> PackageFileTree \<Rightarrow> bool" where
  "carriedOver toTree f =
     list_ex (\<lambda>t. node_path t = node_path f \<and> node_type t = node_type f \<and> \<not> hasChanged f t)
       (allNodes toTree)"

definition onlyFilesAdded :: "PackageFileTree list \<Rightarrow> PackageFileTree list \<Rightarrow> bool" where
  "onlyFilesAdded fromTree toTree = list_all (carriedOver toTree) (allNodes fromTree)"

definition newFiles :: "PackageFileTree list \<Rightarrow> PackageFileTree list \<Rightarrow> PackageFileTree list" where
  "newFiles fromTree toTree =
     filter (\<lambda>t. node_type t = File \<and> node_path t \<notin> set (pathsOf fromTree)) (allNodes toTree)"

definition addedFile :: "PackageFileTree \<Rightarrow> FileChange" where
  "addedFile t =
     \<lparr>fc_path = node_path t, fc_type = file_added, fc_oldSize = None, fc_newSize = node_size t\<rparr>"

definition entryOf :: "PackageFileTree \<Rightarrow> jsstring \<times> PackageFileTree" where
  "entryOf n = (node_path n, n)"

text \<open>
  A tree of one file, and the tree it grows to: the same file, and a directory of \<open>n\<close>
  new files \<open>d/a\<close>, \<open>d/aa\<close>, \<open>d/aaa\<close>, ...
\<close>

definition keptFile :: PackageFileTree where
  "keptFile = PackageFileTree (str ''k'') File (Some 1) (Some (str ''h'')) None"

definition fileIn :: "nat \<Rightarrow> PackageFileTree" where
  "fileIn i = PackageFileTree (str ''d/'' @ replicate (Suc i) 0x61) File (Some (int i)) None None"

definition folderOf :: "nat \<Rightarrow> PackageFileTree" where
  "folderOf n = PackageFileTree (str ''d'') Directory None None (Some (map fileIn [0..<n]))"

definition grownTree :: "nat \<Rightarrow> PackageFileTree list" where
  "grownTree n = [keptFile, folderOf n]"

subsection \<open>An alphabetic comparison\<close>

text \<open>
  A comparison of the kind that \<open>localeCompare\<close> makes: letters in alphabetic order
  whatever their case, and for strings that differ only by case the lower-case letter
  first.  Strings themselves are ordered by their code units, lexicographically.
\<close>

definition foldCase :: "code_unit \<Rightarrow> code_unit" where
  "foldCase c = (if 0x41 \<le> c \<and> c \<le> 0x5A then c + 0x20 else c)"

definition alphabeticCompare :: "jsstring \<Rightarrow> jsstring \<Rightarrow> int" where
  "alphabeticCompare a b =
     (let ka = map foldCase a; kb = map foldCase b in
      if ka < kb then - 1 else if kb < ka then 1
      else if b < a then - 1 else if a < b then 1 else 0)"

definition licenseAndIndex :: "PackageFileTree list" where
  "licenseAndIndex =
     [PackageFileTree (str ''LICENSE'') File (Some 1) None None,
      PackageFileTree (str ''index.js'') File (Some 2) None None]"

section \<open>The change ratio: its formula and its range\<close>

lemma filter_upt_Suc_shift:
  "filter P [0..<Suc n] = (if P 0 then [0] else []) @ map Suc (filter (P \<circ> Suc) [0..<n])"
proof -
  have "[0..<Suc n] = 0 # map Suc [0..<n]"
    by (simp add: upt_conv_Cons map_Suc_upt del: upt_Suc)
  then show ?thesis by (simp add: filter_map del: upt_Suc)
qed

lemma mismatch_count_eq:
  "length (filter (\<lambda>i. charAt a i \<noteq> charAt b i) [0..<max (length a) (length b)])
     = positionMismatches a b"
proof (induction a b rule: positionMismatches.induct)
  case (1 ys)
  have "filter (\<lambda>i. charAt [] i \<noteq> charAt ys i) [0..<length ys] = [0..<length ys]"
    by (rule filter_True) (simp add: charAt_def)
  then show ?case by simp
next
  case (2 x xs)
  have "filter (\<lambda>i. charAt (x # xs) i \<noteq> charAt [] i) [0..<Suc (length xs)] = [0..<Suc (length xs)]"
    by (rule filter_True) (simp add: charAt_def)
  then show ?case by (simp del: upt_Suc)
next
  case (3 x xs y ys)
  have c: "(\<lambda>i. charAt (x # xs) i \<noteq> charAt (y # ys) i) \<circ> Suc = (\<lambda>i. charAt xs i \<noteq> charAt ys i)"
    by (simp add: fun_eq_iff charAt_def)
  have m: "max (length (x # xs)) (length (y # ys)) = Suc (max (length xs) (length ys))" by simp
  show ?case
    unfolding m filter_upt_Suc_shift c using 3 by (simp add: charAt_def)
qed

lemma positionMismatches_le: "positionMismatches a b \<le> max (length a) (length b)"
  by (induction a b rule: positionMismatches.induct) auto

lemma ratio_formula:
  "calculateChangeRatio a b =
     (if a = [] \<and> b = [] then 1
      else (of_nat (positionMismatches a b) + \<bar>of_nat (length a) - of_nat (length b)\<bar>)
             / (of_nat (length a) + of_nat (length b)))"
  by (simp add: calculateChangeRatio_def Let_def mismatch_count_eq del: upt_Suc)

text \<open>
  C3, as amended.  The score is the position-wise mismatches over the longer length plus
  the absolute difference of the lengths, divided by the sum of the lengths (and 1 for
  two empty strings); it lies between 0 and 2.  The bound 1 of the claim does not hold: the
  overhang of the longer string is counted twice.
\<close>

theorem calculateChangeRatio_range:
  "0 \<le> calculateChangeRatio a b \<and> calculateChangeRatio a b \<le> 2 \<and>
   calculateChangeRatio a b =
     (if a = [] \<and> b = [] then 1
      else (of_nat (positionMismatches a b) + \<bar>of_nat (length a) - of_nat (length b)\<bar>)
             / (of_nat (length a) + of_nat (length b)))"
proof (cases "a = [] \<and> b = []")
  case True
  then show ?thesis by (simp add: calculateChangeRatio_def)
next
  case False
  let ?m = "positionMismatches a b"
  let ?la = "length a" and ?lb = "length b"
  have pos: "0 < ?la + ?lb" using False by auto
  have le: "?m \<le> max ?la ?lb" by (rule positionMismatches_le)
  have eq: "calculateChangeRatio a b
      = (of_nat ?m + \<bar>of_nat ?la - of_nat ?lb\<bar>) / (of_nat ?la + of_nat ?lb)"
    using False by (simp add: ratio_formula)
  have num: "(of_nat ?m + \<bar>of_nat ?la - of_nat ?lb\<bar> :: rat) \<le> 2 * (of_nat ?la + of_nat ?lb)"
  proof -
    have "(of_nat ?m :: rat) \<le> of_nat (max ?la ?lb)" using le by (simp only: of_nat_le_iff)
    also have "\<dots> \<le> of_nat ?la + of_nat ?lb" by (simp add: max_def)
    finally have 1: "(of_nat ?m :: rat) \<le> of_nat ?la + of_nat ?lb" .
    have 2: "\<bar>of_nat ?la - of_nat ?lb :: rat\<bar> \<le> of_nat ?la + of_nat ?lb" by (simp add: abs_le_iff)
    from add_mono [OF 1 2] show ?thesis by simp
  qed
  have dpos: "(0::rat) < of_nat ?la + of_nat ?lb" using pos by (metis of_nat_0_less_iff of_nat_add)
  have "0 \<le> calculateChangeRatio a b" unfolding eq by (intro divide_nonneg_nonneg) simp_all
  moreover have "calculateChangeRatio a b \<le> 2" unfolding eq using num dpos
    by (simp add: pos_divide_le_eq)
  ultimately show ?thesis using False eq by simp
qed

text \<open>
  Two strings of three characters that differ in the last one score one sixth.
\<close>

theorem calculateChangeRatio_range_witness:
  "calculateChangeRatio (str ''abc'') (str ''abd'') = 1 / 6 \<and>
   0 \<le> calculateChangeRatio (str ''abc'') (str ''abd'') \<and>
   calculateChangeRatio (str ''abc'') (str ''abd'') \<le> 2"
proof -
  have "calculateChangeRatio (str ''abc'') (str ''abd'') = 1 / 6"
    by (simp add: calculateChangeRatio_def str_def charAt_def)
  then show ?thesis
    using calculateChangeRatio_range [of "str ''abc''" "str ''abd''"] by simp
qed

text \<open>
  The score of \<open>"abc"\<close> against the empty string is 2: three mismatches and a difference of
  three, over three.
\<close>

theorem calculateChangeRatio_above_one:
  "\<not> (0 \<le> calculateChangeRatio (str ''abc'') [] \<and> calculateChangeRatio (str ''abc'') [] \<le> 1)"
  by (simp add: calculateChangeRatio_def str_def charAt_def)

section \<open>The aligner keeps both texts\<close>

lemma oldSide_append [simp]: "oldSide (xs @ ys) = oldSide xs @ oldSide ys"
  by (simp add: oldSide_def)

lemma newSide_append [simp]: "newSide (xs @ ys) = newSide xs @ newSide ys"
  by (simp add: newSide_def)

lemma oldSide_Nil [simp]: "oldSide [] = []"
  by (simp add: oldSide_def)

lemma newSide_Nil [simp]: "newSide [] = []"
  by (simp add: newSide_def)

lemma oldSide_Cons:
  "oldSide (s # segs) =
     (if seg_type s = delete \<or> seg_type s = normal then seg_value s else []) @ oldSide segs"
  by (simp add: oldSide_def)

lemma newSide_Cons:
  "newSide (s # segs) =
     (if seg_type s = insert \<or> seg_type s = normal then seg_value s else []) @ newSide segs"
  by (simp add: newSide_def)

lemma splitWords_last:
  "dropWhile (\<lambda>c. \<not> isWhiteSpace c) s = [] \<Longrightarrow> splitWords s = [s]"
proof -
  assume a: "dropWhile (\<lambda>c. \<not> isWhiteSpace c) s = []"
  have "takeWhile (\<lambda>c. \<not> isWhiteSpace c) s @ dropWhile (\<lambda>c. \<not> isWhiteSpace c) s = s"
    by (rule takeWhile_dropWhile_id)
  with a have t: "takeWhile (\<lambda>c. \<not> isWhiteSpace c) s = s" by simp
  show ?thesis
    by (subst splitWords.simps) (simp only: Let_def a t if_True simp_thms)
qed

lemma splitWords_more:
  "dropWhile (\<lambda>c. \<not> isWhiteSpace c) s \<noteq> [] \<Longrightarrow>
   splitWords s =
     takeWhile (\<lambda>c. \<not> isWhiteSpace c) s
     # takeWhile isWhiteSpace (dropWhile (\<lambda>c. \<not> isWhiteSpace c) s)
     # splitWords (dropWhile isWhiteSpace (dropWhile (\<lambda>c. \<not> isWhiteSpace c) s))"
  by (subst splitWords.simps) (simp only: Let_def if_False simp_thms)

lemma concat_splitWords: "concat (splitWords s) = s"
proof (induction s rule: splitWords.induct)
  case (1 s)
  let ?rest = "dropWhile (\<lambda>c. \<not> isWhiteSpace c) s"
  show ?case
  proof (cases "?rest = []")
    case True
    then show ?thesis by (simp only: splitWords_last concat.simps append_Nil2)
  next
    case False
    have ih: "concat (splitWords (dropWhile isWhiteSpace ?rest)) = dropWhile isWhiteSpace ?rest"
      by (rule "1.IH" [OF refl refl False])
    have "concat (splitWords s) =
        takeWhile (\<lambda>c. \<not> isWhiteSpace c) s @ (takeWhile isWhiteSpace ?rest
          @ concat (splitWords (dropWhile isWhiteSpace ?rest)))"
      by (simp only: splitWords_more [OF False] concat.simps)
    also have "\<dots> = takeWhile (\<lambda>c. \<not> isWhiteSpace c) s @ ?rest"
      by (simp only: ih takeWhile_dropWhile_id)
    also have "\<dots> = s" by (rule takeWhile_dropWhile_id)
    finally show ?thesis .
  qed
qed

lemma pushNormal_old: "oldSide (pushNormal segs w) = oldSide segs @ w"
proof (cases segs rule: rev_cases)
  case Nil
  then show ?thesis by (simp add: pushNormal_def oldSide_Cons)
next
  case (snoc bs l)
  then show ?thesis by (simp add: pushNormal_def oldSide_Cons)
qed

lemma pushNormal_new: "newSide (pushNormal segs w) = newSide segs @ w"
proof (cases segs rule: rev_cases)
  case Nil
  then show ?thesis by (simp add: pushNormal_def newSide_Cons)
next
  case (snoc bs l)
  then show ?thesis by (simp add: pushNormal_def newSide_Cons)
qed

lemma concat_take_drop: "concat (take k xs) @ concat (drop k xs) = concat xs"
  using concat_append [of "take k xs" "drop k xs"] by simp

lemma alignLoop_old: "oldSide (alignLoop ows nws segs) = oldSide segs @ concat ows"
proof (induction ows nws segs rule: alignLoop.induct)
  case (4 w ws n ns segments)
  show ?case
  proof (cases "w = n")
    case True
    with 4 show ?thesis by (simp add: pushNormal_old)
  next
    case False
    show ?thesis
    proof (cases "lookahead w (n # ns)")
      case (Some look)
      with False 4 show ?thesis by (simp add: oldSide_Cons)
    next
      case None
      note n1 = None
      show ?thesis
      proof (cases "lookahead n (w # ws)")
        case (Some look)
        have "oldSide (alignLoop (w # ws) (n # ns) segments)
              = oldSide segments @ concat (take look (w # ws)) @ concat (drop look (w # ws))"
          using False n1 Some 4 by (simp add: oldSide_Cons join_def)
        then show ?thesis by (simp only: concat_take_drop)
      next
        case None
        with False n1 4 show ?thesis by (simp add: oldSide_Cons)
      qed
    qed
  qed
qed (simp_all add: oldSide_Cons join_def)

lemma alignLoop_new: "newSide (alignLoop ows nws segs) = newSide segs @ concat nws"
proof (induction ows nws segs rule: alignLoop.induct)
  case (4 w ws n ns segments)
  show ?case
  proof (cases "w = n")
    case True
    with 4 show ?thesis by (simp add: pushNormal_new)
  next
    case False
    show ?thesis
    proof (cases "lookahead w (n # ns)")
      case (Some look)
      have "newSide (alignLoop (w # ws) (n # ns) segments)
              = newSide segments @ concat (take look (n # ns)) @ concat (drop look (n # ns))"
        using False Some 4 by (simp add: newSide_Cons join_def)
      then show ?thesis by (simp only: concat_take_drop)
    next
      case None
      note n1 = None
      show ?thesis
      proof (cases "lookahead n (w # ws)")
        case (Some look)
        with False n1 4 show ?thesis by (simp add: newSide_Cons)
      next
        case None
        with False n1 4 show ?thesis by (simp add: newSide_Cons)
      qed
    qed
  qed
qed (simp_all add: newSide_Cons join_def)

lemma coalesceStep_old: "oldSide (coalesceStep merged seg) = oldSide merged @ oldSide [seg]"
proof (cases merged rule: rev_cases)
  case Nil
  then show ?thesis by (simp add: coalesceStep_def)
next
  case (snoc bs l)
  then show ?thesis by (simp add: coalesceStep_def oldSide_Cons)
qed

lemma coalesceStep_new: "newSide (coalesceStep merged seg) = newSide merged @ newSide [seg]"
proof (cases merged rule: rev_cases)
  case Nil
  then show ?thesis by (simp add: coalesceStep_def)
next
  case (snoc bs l)
  then show ?thesis by (simp add: coalesceStep_def newSide_Cons)
qed

lemma coalesce_old: "oldSide (foldl coalesceStep merged segs) = oldSide merged @ oldSide segs"
proof (induction segs arbitrary: merged)
  case Nil
  then show ?case by simp
next
  case (Cons s segs)
  then show ?case by (simp add: coalesceStep_old oldSide_Cons)
qed

lemma coalesce_new: "newSide (foldl coalesceStep merged segs) = newSide merged @ newSide segs"
proof (induction segs arbitrary: merged)
  case Nil
  then show ?case by simp
next
  case (Cons s segs)
  then show ?case by (simp add: coalesceStep_new newSide_Cons)
qed

text \<open>
  C1.  The segments that the aligner returns for \<open>(oldText, newText)\<close> give back
  \<open>oldText\<close> on the old side and \<open>newText\<close> on the new side, and the line made from
  one raw change has a single segment whose text is the raw text.
\<close>

theorem buildInlineDiffSegments_roundtrip:
  "oldSide (buildInlineDiffSegments oldText newText options) = oldText \<and>
   newSide (buildInlineDiffSegments oldText newText options) = newText \<and>
   line_content (changeToLine change) = [\<lparr>seg_value = rc_content change, seg_type = normal\<rparr>]"
  by (simp add: buildInlineDiffSegments_def Let_def coalesce_old coalesce_new
      alignLoop_old alignLoop_new concat_splitWords changeToLine_def)

theorem buildInlineDiffSegments_roundtrip_witness:
  "buildInlineDiffSegments (str ''a b'') (str ''a c'') defaultOptions
     = [\<lparr>seg_value = str ''a '', seg_type = normal\<rparr>,
        \<lparr>seg_value = str ''b'', seg_type = delete\<rparr>,
        \<lparr>seg_value = str ''c'', seg_type = insert\<rparr>] \<and>
   oldSide (buildInlineDiffSegments (str ''a b'') (str ''a c'') defaultOptions) = str ''a b'' \<and>
   newSide (buildInlineDiffSegments (str ''a b'') (str ''a c'') defaultOptions) = str ''a c''"
proof -
  have "buildInlineDiffSegments (str ''a b'') (str ''a c'') defaultOptions
     = [\<lparr>seg_value = str ''a '', seg_type = normal\<rparr>,
        \<lparr>seg_value = str ''b'', seg_type = delete\<rparr>,
        \<lparr>seg_value = str ''c'', seg_type = insert\<rparr>]"
    by code_simp
  then show ?thesis
    using buildInlineDiffSegments_roundtrip [of "str ''a b''" "str ''a c''" defaultOptions]
    by simp
qed

section \<open>Skip blocks between hunks\<close>

lemma foldl_skipStep:
  "fst (foldl skipStep (result, cursor) hs) = result @ skipBlocksFrom cursor hs"
proof (induction hs arbitrary: result cursor)
  case Nil
  then show ?case by simp
next
  case (Cons h hs)
  have "skipStep (result, cursor) h =
          (result @ gapBlock (oldStart h - cursor) @ [hunk h], max (oldStart h + oldLines h) cursor)"
    by (simp add: skipStep_def gapBlock_def Let_def)
  then show ?case by (simp add: Cons.IH)
qed

lemma skipBlocksFrom_positive: "b \<in> set (skipBlocksFrom cursor hs) \<Longrightarrow> positiveSkip b"
  by (induction hs arbitrary: cursor) (auto simp: gapBlock_def positiveSkip_def split: if_splits)

lemma hunksOf_append: "hunksOf (xs @ ys) = hunksOf xs @ hunksOf ys"
  by (simp add: hunksOf_def List.map_filter_def)

lemma hunksOf_gapBlock: "hunksOf (gapBlock g) = []"
  by (simp add: hunksOf_def gapBlock_def List.map_filter_def)

lemma hunksOf_skipBlocksFrom: "hunksOf (skipBlocksFrom cursor hs) = hs"
proof (induction hs arbitrary: cursor)
  case Nil
  then show ?case by (simp add: hunksOf_def List.map_filter_def)
next
  case (Cons h hs)
  have "hunksOf (hunk h # bs) = h # hunksOf bs" for bs
    by (simp add: hunksOf_def List.map_filter_def)
  with Cons show ?case by (simp add: hunksOf_append hunksOf_gapBlock)
qed

lemma skipBlocksFrom_last:
  "hs \<noteq> [] \<Longrightarrow> skipBlocksFrom cursor hs \<noteq> [] \<and> last (skipBlocksFrom cursor hs) = hunk (last hs)"
proof (induction hs arbitrary: cursor)
  case Nil
  then show ?case by simp
next
  case (Cons h hs)
  show ?case
  proof (cases "hs = []")
    case True
    then show ?thesis by simp
  next
    case False
    with Cons.IH [of "max (oldStart h + oldLines h) cursor"] show ?thesis by simp
  qed
qed

text \<open>
  C5.  \<open>insertSkipBlocks\<close> is that inserter started with the cursor at 1: every skip block
  it emits has a positive count, the hunks come out unchanged and in order, the last block
  of a non-empty result is the last hunk (no trailing skip block), and no hunks give no
  blocks.  A single hunk with \<open>oldStart = 50\<close> is preceded by a skip block of 49 lines.
\<close>

theorem insertSkipBlocks_gaps:
  "insertSkipBlocks hs = skipBlocksFrom 1 hs \<and>
   (\<forall>b \<in> set (insertSkipBlocks hs). positiveSkip b) \<and>
   hunksOf (insertSkipBlocks hs) = hs \<and>
   (hs \<noteq> [] \<longrightarrow> last (insertSkipBlocks hs) = hunk (last hs)) \<and>
   (hs = [] \<longrightarrow> insertSkipBlocks hs = [])"
proof -
  have eq: "insertSkipBlocks hs = skipBlocksFrom 1 hs"
    using foldl_skipStep [of "[]" 1 hs] by (simp add: insertSkipBlocks_def)
  show ?thesis
    unfolding eq
    using skipBlocksFrom_positive [of _ 1 hs] hunksOf_skipBlocksFrom [of 1 hs]
      skipBlocksFrom_last [of hs 1]
    by auto
qed

theorem insertSkipBlocks_gaps_witness:
  "insertSkipBlocks [hunkAt50]
     = [skip \<lparr>skip_count = 49, skip_content = str ''49 lines hidden''\<rparr>, hunk hunkAt50] \<and>
   positiveSkip (skip \<lparr>skip_count = 49, skip_content = str ''49 lines hidden''\<rparr>) \<and>
   last (insertSkipBlocks [hunkAt50]) = hunk hunkAt50"
proof -
  have n: "numberToString 49 = str ''49''" by code_simp
  have s: "str ''49'' @ str '' lines hidden'' = str ''49 lines hidden''" by (simp add: str_def)
  have "oldStart hunkAt50 = 50" by (simp add: hunkAt50_def)
  then have "skipBlocksFrom 1 [hunkAt50]
      = [skip \<lparr>skip_count = 49, skip_content = str ''49 lines hidden''\<rparr>, hunk hunkAt50]"
    by (simp add: gapBlock_def n s)
  then show ?thesis
    using insertSkipBlocks_gaps [of "[hunkAt50]"] by simp
qed

section \<open>Merging a deleted line with the inserted line that follows it\<close>

lemma mergeable_Suc: "mergeable options (c # cs) (Suc i) = mergeable options cs i"
  by (simp add: mergeable_def)

lemma mergeable_0:
  "mergeable options (c # n # rest) 0 \<longleftrightarrow>
     rc_type c = delete \<and> rc_type n = insert \<and>
     isSimilarEnough (rc_content c) (rc_content n) (maxChangeRatio options)"
  by (simp add: mergeable_def)

lemma upt_shift: "[0..<Suc n] = 0 # map Suc [0..<n]"
  by (simp add: upt_conv_Cons map_Suc_upt del: upt_Suc)

lemma linesAt_Suc_unmerged:
  "\<not> mergeable options (c # cs) 0 \<Longrightarrow> linesAt options (c # cs) (Suc i) = linesAt options cs i"
  by (cases i) (simp_all add: linesAt_def mergeable_Suc)

lemma linesAt_Suc_Suc_merged:
  assumes "mergeable options (c # n # rest) 0"
  shows "linesAt options (c # n # rest) (Suc (Suc i)) = linesAt options rest i"
proof -
  have n: "rc_type n = insert" using assms by (simp add: mergeable_0)
  have "\<not> mergeable options (n # rest) 0"
    using n by (simp add: mergeable_def)
  then have "linesAt options (n # rest) (Suc i) = linesAt options rest i"
    by (rule linesAt_Suc_unmerged)
  moreover have "linesAt options (c # n # rest) (Suc (Suc i)) = linesAt options (n # rest) (Suc i)"
    by (simp add: linesAt_def mergeable_Suc)
  ultimately show ?thesis by simp
qed

lemma mergedLines_unmerged:
  assumes "\<not> mergeable options (c # cs) 0"
  shows "mergedLines options (c # cs) = changeToLine c # mergedLines options cs"
proof -
  have "linesAt options (c # cs) 0 = [changeToLine c]"
    using assms by (simp add: linesAt_def changeToLine_def)
  moreover have "map (linesAt options (c # cs) \<circ> Suc) [0..<length cs] = map (linesAt options cs) [0..<length cs]"
    using assms by (simp add: linesAt_Suc_unmerged)
  ultimately show ?thesis
    unfolding mergedLines_def by (simp only: length_Cons upt_shift list.map map_map concat.simps append_Cons append_Nil)
qed

lemma mergedLines_merged:
  assumes "mergeable options (c # n # rest) 0"
  shows "mergedLines options (c # n # rest) = mergedLine c n options # mergedLines options rest"
proof -
  have n: "rc_type n = insert" using assms by (simp add: mergeable_0)
  have 0: "linesAt options (c # n # rest) 0 = [mergedLine c n options]"
    using assms by (simp add: linesAt_def mergedLine_def)
  have "\<not> mergeable options (c # n # rest) (Suc 0)"
    using n by (simp add: mergeable_def)
  then have 1: "linesAt options (c # n # rest) (Suc 0) = []"
    using assms by (simp add: linesAt_def)
  have 2: "map (linesAt options (c # n # rest) \<circ> (Suc \<circ> Suc)) [0..<length rest]
             = map (linesAt options rest) [0..<length rest]"
    using assms by (simp add: linesAt_Suc_Suc_merged)
  have "[0..<length (c # n # rest)] = 0 # Suc 0 # map (Suc \<circ> Suc) [0..<length rest]"
    by (simp only: length_Cons upt_shift list.map map_map)
  then show ?thesis
    unfolding mergedLines_def using 0 1 2 by (simp only: list.map map_map concat.simps append_Cons append_Nil)
qed

lemma mergeAdjacentLines_eq: "mergeAdjacentLines changes options = mergedLines options changes"
proof (induction changes options rule: mergeAdjacentLines.induct)
  case (1 options)
  then show ?case by (simp add: mergedLines_def)
next
  case (2 current options)
  have "\<not> mergeable options [current] 0" by (simp add: mergeable_def)
  then have "mergedLines options [current] = changeToLine current # mergedLines options []"
    by (rule mergedLines_unmerged)
  then show ?case by (simp add: mergedLines_def)
next
  case (3 current "next" rest options)
  let ?c = "rc_type current = delete \<and> rc_type next = insert \<and>
         isSimilarEnough (rc_content current) (rc_content next) (maxChangeRatio options)"
  show ?case
  proof (cases "mergeable options (current # next # rest) 0")
    case True
    then have c: ?c by (simp add: mergeable_0)
    have "mergeAdjacentLines (current # next # rest) options
            = mergedLine current next options # mergeAdjacentLines rest options"
      using c by simp
    also have "\<dots> = mergedLine current next options # mergedLines options rest"
      using "3.IH"(1) [OF c] by simp
    also have "\<dots> = mergedLines options (current # next # rest)"
      using mergedLines_merged [OF True] by simp
    finally show ?thesis .
  next
    case False
    then have c: "\<not> ?c" by (simp add: mergeable_0)
    have "mergeAdjacentLines (current # next # rest) options
            = changeToLine current # mergeAdjacentLines (next # rest) options"
      using c by auto
    also have "\<dots> = changeToLine current # mergedLines options (next # rest)"
      using "3.IH"(2) [OF c] by simp
    also have "\<dots> = mergedLines options (current # next # rest)"
      using mergedLines_unmerged [OF False] by simp
    finally show ?thesis .
  qed
qed

text \<open>
  C2.  With \<open>mergeModifiedLines\<close> enabled the lines of the processed hunk are exactly
  those: each similar delete+insert pair is replaced by its one merged line and both
  changes are consumed, and every other change is its own single-segment line.  With the
  option disabled every change is its own line.
\<close>

theorem processHunk_merges_pairs:
  "hunk_lines (processHunk raw options) =
     (if mergeModifiedLines options then mergedLines options (raw_changes raw)
      else map changeToLine (raw_changes raw))"
  by (simp add: processHunk_def mergeAdjacentLines_eq)

theorem processHunk_merges_pairs_witness:
  "mergeModifiedLines defaultOptions \<and>
   hunk_lines (processHunk sampleHunk defaultOptions) = sampleLines \<and>
   mergedLines defaultOptions (raw_changes sampleHunk) = sampleLines"
proof -
  have m: "mergeModifiedLines defaultOptions" by (simp add: defaultOptions_def)
  have "hunk_lines (processHunk sampleHunk defaultOptions) = sampleLines"
    by code_simp
  then show ?thesis
    using m processHunk_merges_pairs [of sampleHunk defaultOptions] by simp
qed

section \<open>Statistics of a diff\<close>

lemma foldl_countLine:
  "foldl countLine st ls =
     \<lparr>additions = additions st + length (filter (\<lambda>l. line_type l = insert) ls),
      deletions = deletions st + length (filter (\<lambda>l. line_type l = delete) ls)\<rparr>"
  by (induction ls arbitrary: st) (simp_all add: countLine_def)

lemma linesOfKind_Cons: "linesOfKind k (b # bs) = linesOfKind k [b] + linesOfKind k bs"
  by (simp add: linesOfKind_def)

lemma countBlock_eq:
  "countBlock st b =
     \<lparr>additions = additions st + linesOfKind insert [b],
      deletions = deletions st + linesOfKind delete [b]\<rparr>"
  by (cases b) (simp_all add: countBlock_def foldl_countLine linesOfKind_def)

lemma foldl_countBlock:
  "foldl countBlock st bs =
     \<lparr>additions = additions st + linesOfKind insert bs,
      deletions = deletions st + linesOfKind delete bs\<rparr>"
proof (induction bs arbitrary: st)
  case Nil
  then show ?case by (simp add: linesOfKind_def)
next
  case (Cons b bs)
  have "foldl countBlock st (b # bs) = foldl countBlock (countBlock st b) bs" by simp
  also have "\<dots> = \<lparr>additions = additions (countBlock st b) + linesOfKind insert bs,
      deletions = deletions (countBlock st b) + linesOfKind delete bs\<rparr>"
    by (rule Cons.IH)
  also have "\<dots> = \<lparr>additions = additions st + linesOfKind insert (b # bs),
      deletions = deletions st + linesOfKind delete (b # bs)\<rparr>"
    by (simp add: countBlock_eq linesOfKind_Cons [of _ b bs])
  finally show ?case .
qed

lemma countDiffStats_eq:
  "countDiffStats bs = \<lparr>additions = linesOfKind insert bs, deletions = linesOfKind delete bs\<rparr>"
  by (simp add: countDiffStats_def foldl_countBlock)

lemma merge_fewer:
  "k \<noteq> normal \<Longrightarrow>
   length (filter (\<lambda>l. line_type l = k) (mergeAdjacentLines cs options))
     \<le> length (filter (\<lambda>l. line_type l = k) (map changeToLine cs))"
proof (induction cs options rule: mergeAdjacentLines.induct)
  case (1 options)
  then show ?case by simp
next
  case (2 current options)
  then show ?case by simp
next
  case (3 current "next" rest options)
  then show ?case by (auto simp: mergedLine_def changeToLine_def)
qed

lemma processHunk_fewer:
  assumes "k \<noteq> normal"
  shows "linesOfKind k [hunk (processHunk raw (options\<lparr>mergeModifiedLines := True\<rparr>))]
       \<le> linesOfKind k [hunk (processHunk raw (options\<lparr>mergeModifiedLines := False\<rparr>))]"
  using merge_fewer [OF assms, of "raw_changes raw" "options\<lparr>mergeModifiedLines := True\<rparr>"]
  by (simp add: linesOfKind_def processHunk_def)

text \<open>
  C9.  \<open>countDiffStats\<close> counts the insert lines as additions and the delete lines as
  deletions, and nothing else.  A hunk whose only line is a merged pair counts 0 and 0;
  processing a hunk with merging never counts more than processing it without; and for
  the same diff text of one modified line the counts are 0 and 0 with merging, and 1 and 1
  without.
\<close>

theorem countDiffStats_counts:
  "countDiffStats bs = \<lparr>additions = linesOfKind insert bs, deletions = linesOfKind delete bs\<rparr> \<and>
   countDiffStats [hunk (h\<lparr>hunk_lines := [mergedLine current next options]\<rparr>)]
     = \<lparr>additions = 0, deletions = 0\<rparr> \<and>
   additions (countDiffStats [hunk (processHunk raw (options\<lparr>mergeModifiedLines := True\<rparr>))])
     \<le> additions (countDiffStats [hunk (processHunk raw (options\<lparr>mergeModifiedLines := False\<rparr>))]) \<and>
   deletions (countDiffStats [hunk (processHunk raw (options\<lparr>mergeModifiedLines := True\<rparr>))])
     \<le> deletions (countDiffStats [hunk (processHunk raw (options\<lparr>mergeModifiedLines := False\<rparr>))]) \<and>
   statsOf modifiedLineDiff (defaultOptions\<lparr>mergeModifiedLines := True\<rparr>)
     = [\<lparr>additions = 0, deletions = 0\<rparr>] \<and>
   statsOf modifiedLineDiff (defaultOptions\<lparr>mergeModifiedLines := False\<rparr>)
     = [\<lparr>additions = 1, deletions = 1\<rparr>]"
proof -
  have 1: "countDiffStats [hunk (h\<lparr>hunk_lines := [mergedLine current next options]\<rparr>)]
     = \<lparr>additions = 0, deletions = 0\<rparr>"
    by (simp add: countDiffStats_eq linesOfKind_def mergedLine_def)
  have 2: "statsOf modifiedLineDiff (defaultOptions\<lparr>mergeModifiedLines := True\<rparr>)
     = [\<lparr>additions = 0, deletions = 0\<rparr>]"
    by code_simp
  have 3: "statsOf modifiedLineDiff (defaultOptions\<lparr>mergeModifiedLines := False\<rparr>)
     = [\<lparr>additions = 1, deletions = 1\<rparr>]"
    by code_simp
  have 4: "additions (countDiffStats [hunk (processHunk raw (options\<lparr>mergeModifiedLines := True\<rparr>))])
     \<le> additions (countDiffStats [hunk (processHunk raw (options\<lparr>mergeModifiedLines := False\<rparr>))])"
    using processHunk_fewer [of insert raw options] by (simp add: countDiffStats_eq)
  have 5: "deletions (countDiffStats [hunk (processHunk raw (options\<lparr>mergeModifiedLines := True\<rparr>))])
     \<le> deletions (countDiffStats [hunk (processHunk raw (options\<lparr>mergeModifiedLines := False\<rparr>))])"
    using processHunk_fewer [of delete raw options] by (simp add: countDiffStats_eq)
  from countDiffStats_eq [of bs] 1 2 3 4 5 show ?thesis by (intro conjI)
qed

theorem countDiffStats_counts_witness:
  "countDiffStats [skip \<lparr>skip_count = 49, skip_content = str ''49 lines hidden''\<rparr>, hunk hunkAt50]
     = \<lparr>additions = 0, deletions = 0\<rparr>"
  using countDiffStats_counts
    [of "[skip \<lparr>skip_count = 49, skip_content = str ''49 lines hidden''\<rparr>, hunk hunkAt50]"]
  by (simp add: linesOfKind_def hunkAt50_def)

section \<open>The paths of the files of a diff\<close>

lemma not_both_markers: "startsWith line (str ''---'') \<Longrightarrow> \<not> startsWith line (str ''+++'')"
  by (auto simp: startsWith_def str_def)

lemma pushHunk_paths:
  "(case pushHunk cf ch opts of Some f \<Rightarrow> [pathPair f] | None \<Rightarrow> [])
     = (case cf of Some f \<Rightarrow> [pathPair f] | None \<Rightarrow> [])"
  by (simp add: pushHunk_def pathPair_def split: option.splits)

lemma pushHunk_files:
  "map pathPair (case pushHunk cf ch opts of Some f \<Rightarrow> fs @ [f] | None \<Rightarrow> fs)
     = map pathPair fs @ (case cf of Some f \<Rightarrow> [pathPair f] | None \<Rightarrow> [])"
  by (simp add: pushHunk_def pathPair_def split: option.splits)

lemma parseLine_old_marker:
  "startsWith line (str ''---'') \<Longrightarrow> openedPaths (parseLine opts st line) = openedPaths st"
  by (simp add: parseLine_def openedPaths_def pushHunk_paths)

lemma parseLine_new_marker:
  assumes "startsWith line (str ''+++'')"
  shows "openedPaths (parseLine opts st line) = openedPaths st @ [(extractPath line, extractPath line)]"
proof -
  have "\<not> startsWith line (str ''---'')" using assms not_both_markers by blast
  then show ?thesis
    using assms by (simp add: parseLine_def openedPaths_def Let_def pushHunk_files pathPair_def)
qed

lemma parseLine_other:
  assumes "\<not> startsWith line (str ''---'')" and "\<not> startsWith line (str ''+++'')"
  shows "openedPaths (parseLine opts st line) = openedPaths st"
proof (cases "hunkMatch line")
  case None
  then show ?thesis
    using assms
    by (simp add: parseLine_def openedPaths_def Let_def split: option.splits)
next
  case (Some g)
  then show ?thesis
    using assms
    by (cases g) (simp add: parseLine_def openedPaths_def Let_def pushHunk_paths)
qed

lemma parseLine_paths:
  "openedPaths (parseLine opts st line) = openedPaths st @ map (\<lambda>l. (extractPath l, extractPath l)) (newFileLines [line])"
proof (cases "startsWith line (str ''+++'')")
  case True
  then show ?thesis by (simp add: parseLine_new_marker newFileLines_def)
next
  case False
  then show ?thesis
    by (cases "startsWith line (str ''---'')")
       (simp_all add: parseLine_old_marker parseLine_other newFileLines_def)
qed

lemma foldl_parseLine_paths:
  "openedPaths (foldl (parseLine opts) st ls)
     = openedPaths st @ map (\<lambda>l. (extractPath l, extractPath l)) (newFileLines ls)"
proof (induction ls arbitrary: st)
  case Nil
  then show ?case by (simp add: newFileLines_def)
next
  case (Cons l ls)
  have "newFileLines (l # ls) = newFileLines [l] @ newFileLines ls"
    by (simp add: newFileLines_def)
  then show ?case by (simp add: Cons.IH parseLine_paths)
qed

lemma finish_paths: "map pathPair (finish opts st) = openedPaths st"
  by (simp add: finish_def openedPaths_def pushHunk_files)

lemma deriveType_paths: "pathPair (deriveType f) = pathPair f"
  by (simp add: deriveType_def pathPair_def Let_def)

lemma parseUnifiedDiff_paths:
  "map pathPair (parseUnifiedDiff diffText opts)
     = map (\<lambda>l. (extractPath l, extractPath l)) (newFileLines (splitOn 0xA diffText))"
proof -
  have "map pathPair (parseUnifiedDiff diffText opts)
      = map pathPair (finish opts (foldl (parseLine opts) initialState (splitOn 0xA diffText)))"
    by (simp add: parseUnifiedDiff_def deriveType_paths comp_def)
  also have "\<dots> = openedPaths initialState
        @ map (\<lambda>l. (extractPath l, extractPath l)) (newFileLines (splitOn 0xA diffText))"
    by (simp only: finish_paths foldl_parseLine_paths)
  finally show ?thesis by (simp add: openedPaths_def initialState_def)
qed

lemma extractPath_marker:
  "extractPath (str ''+++ '' @ rest) =
     takeWhile (\<lambda>c. \<not> isLineTerminator c)
       (if startsWith rest (str ''b/'') then drop 2 rest else rest)"
  by (simp add: extractPath_def startsWith_def str_def Let_def)

text \<open>
  C4, as amended.  Every line that starts with \<open>+++\<close> gives one file entry, in order, and
  both paths of the entry are the path extracted from the line.  For a line \<open>+++ rest\<close>
  that path is \<open>rest\<close> without a leading \<open>b/\<close>, up to the first line terminator; a
  leading \<open>a/\<close> is kept.  So \<open>+++ b/foo.js\<close> gives \<open>foo.js\<close> and \<open>+++ a/foo.js\<close> gives
  \<open>a/foo.js\<close>.
\<close>

theorem parseUnifiedDiff_new_file_paths:
  "map pathPair (parseUnifiedDiff diffText options)
     = map (\<lambda>l. (extractPath l, extractPath l)) (newFileLines (splitOn 0xA diffText)) \<and>
   extractPath (str ''+++ '' @ rest) =
     takeWhile (\<lambda>c. \<not> isLineTerminator c)
       (if startsWith rest (str ''b/'') then drop 2 rest else rest) \<and>
   extractPath (str ''+++ b/foo.js'') = str ''foo.js'' \<and>
   extractPath (str ''+++ a/foo.js'') = str ''a/foo.js''"
proof -
  have "extractPath (str ''+++ b/foo.js'') = str ''foo.js''"
    by (simp add: extractPath_def startsWith_def str_def isLineTerminator_def)
  moreover have "extractPath (str ''+++ a/foo.js'') = str ''a/foo.js''"
    by (simp add: extractPath_def startsWith_def str_def isLineTerminator_def)
  ultimately show ?thesis
    using parseUnifiedDiff_paths [of diffText options] extractPath_marker [of rest] by simp
qed

theorem parseUnifiedDiff_new_file_paths_witness:
  "map pathPair (parseUnifiedDiff (str ''+++ b/foo.js'') defaultOptions)
     = [(str ''foo.js'', str ''foo.js'')]"
proof -
  have "newFileLines (splitOn 0xA (str ''+++ b/foo.js'')) = [str ''+++ b/foo.js'']"
    by (simp add: newFileLines_def startsWith_def str_def)
  then show ?thesis
    using parseUnifiedDiff_new_file_paths [of "str ''+++ b/foo.js''" defaultOptions]
    by simp
qed

text \<open>
  The diff text \<open>+++ a/foo.js\<close> gives one file entry with both paths \<open>a/foo.js\<close>, not
  \<open>foo.js\<close>.
\<close>

theorem parseUnifiedDiff_keeps_a_prefix:
  "map pathPair (parseUnifiedDiff (str ''+++ a/foo.js'') defaultOptions)
     = [(str ''a/foo.js'', str ''a/foo.js'')] \<and>
   str ''a/foo.js'' \<noteq> str ''foo.js''"
proof -
  have "map pathPair (parseUnifiedDiff (str ''+++ a/foo.js'') defaultOptions)
     = [(str ''a/foo.js'', str ''a/foo.js'')]"
    by code_simp
  moreover have "str ''a/foo.js'' \<noteq> str ''foo.js''"
    by (simp add: str_def)
  ultimately show ?thesis by simp
qed

section \<open>The stable sort\<close>

lemma set_insertBy: "set (insertBy cmp x ys) = Set.insert x (set ys)"
  by (induction ys) auto

lemma set_sortBy: "set (sortBy cmp xs) = set xs"
  by (induction xs) (simp_all add: sortBy_def set_insertBy)

lemma length_insertBy: "length (insertBy cmp x ys) = Suc (length ys)"
  by (induction ys) auto

lemma length_sortBy: "length (sortBy cmp xs) = length xs"
  by (induction xs) (simp_all add: sortBy_def length_insertBy)

lemma ascending_insertBy:
  assumes "consistentComparator cmp" and "ascending cmp ys"
  shows "ascending cmp (insertBy cmp x ys)"
  using assms(2)
proof (induction ys)
  case Nil
  then show ?case by (simp add: ascending_def)
next
  case (Cons y ys)
  show ?case
  proof (cases "cmp x y \<le> 0")
    case True
    have "cmp x z \<le> 0" if "z \<in> set ys" for z
    proof -
      from Cons.prems that have "cmp y z \<le> 0" by (simp add: ascending_def)
      with True assms(1) show ?thesis unfolding consistentComparator_def by blast
    qed
    with True Cons.prems show ?thesis by (auto simp: ascending_def)
  next
    case False
    then have yx: "cmp y x \<le> 0"
      using assms(1) unfolding consistentComparator_def by blast
    from Cons.prems have "ascending cmp ys" by (simp add: ascending_def)
    then have "ascending cmp (insertBy cmp x ys)" by (rule Cons.IH)
    with False yx Cons.prems show ?thesis
      by (auto simp: ascending_def set_insertBy)
  qed
qed

lemma ascending_sortBy: "consistentComparator cmp \<Longrightarrow> ascending cmp (sortBy cmp xs)"
proof (induction xs)
  case Nil
  then show ?case by (simp add: sortBy_def ascending_def)
next
  case (Cons x xs)
  then have "ascending cmp (insertBy cmp x (sortBy cmp xs))"
    by (intro ascending_insertBy) simp_all
  then show ?case by (simp add: sortBy_def)
qed

lemma consistent_byPath:
  "consistentComparator localeCompare \<Longrightarrow> consistentComparator (byPath localeCompare)"
  unfolding consistentComparator_def byPath_def by blast

section \<open>The changes of the dependency comparison\<close>

lemma getProperty_own:
  "map_of fromDeps name = map_of toDeps name \<Longrightarrow> getProperty fromDeps name = getProperty toDeps name"
  by (simp add: getProperty_def)

lemma truthyValue_Some: "truthyValue v \<Longrightarrow> v \<noteq> None"
  by (cases v) (simp_all add: truthyValue_def)

lemma dependencyChange_Some:
  assumes "dependencyChange semverDiff sec fromDeps toDeps name = Some c"
  shows "dep_name c = name \<and> dep_section c = sec \<and>
         dep_from c = getProperty fromDeps name \<and> dep_to c = getProperty toDeps name \<and>
         dep_from c \<noteq> dep_to c \<and>
         (dep_type c = dep_updated \<longrightarrow> truthyValue (dep_from c) \<and> truthyValue (dep_to c)) \<and>
         (dep_type c \<noteq> dep_updated \<longrightarrow> dep_semverDiff c = None)"
  using assms
  by (auto simp: dependencyChange_def Let_def split: if_splits)

lemma sectionChanges_member:
  assumes "c \<in> set (sectionChanges semverDiff fromPkg toPkg sec)"
  shows "dep_section c = sec \<and>
         dep_from c = getProperty (sectionOf fromPkg sec) (dep_name c) \<and>
         dep_to c = getProperty (sectionOf toPkg sec) (dep_name c) \<and>
         dep_from c \<noteq> dep_to c \<and>
         map_of (sectionOf fromPkg sec) (dep_name c) \<noteq> map_of (sectionOf toPkg sec) (dep_name c) \<and>
         (dep_type c = dep_updated \<longrightarrow> dep_from c \<noteq> None \<and> dep_to c \<noteq> None) \<and>
         (dep_type c \<noteq> dep_updated \<longrightarrow> dep_semverDiff c = None)"
proof -
  from assms obtain name where
    "dependencyChange semverDiff sec (sectionOf fromPkg sec) (sectionOf toPkg sec) name = Some c"
    by (auto simp: sectionChanges_def Let_def List.map_filter_def)
  from dependencyChange_Some [OF this]
  have c: "dep_name c = name \<and> dep_section c = sec \<and>
         dep_from c = getProperty (sectionOf fromPkg sec) name \<and>
         dep_to c = getProperty (sectionOf toPkg sec) name \<and>
         dep_from c \<noteq> dep_to c \<and>
         (dep_type c = dep_updated \<longrightarrow> truthyValue (dep_from c) \<and> truthyValue (dep_to c)) \<and>
         (dep_type c \<noteq> dep_updated \<longrightarrow> dep_semverDiff c = None)" .
  have own: "map_of (sectionOf fromPkg sec) name \<noteq> map_of (sectionOf toPkg sec) name"
  proof
    assume "map_of (sectionOf fromPkg sec) name = map_of (sectionOf toPkg sec) name"
    then have "getProperty (sectionOf fromPkg sec) name = getProperty (sectionOf toPkg sec) name"
      by (rule getProperty_own)
    with c show False by metis
  qed
  have "dep_type c = dep_updated \<longrightarrow> dep_from c \<noteq> None \<and> dep_to c \<noteq> None"
    using c truthyValue_Some by blast
  with c own show ?thesis by metis
qed

text \<open>
  C7.  Every change that \<open>compareDependencies\<close> returns carries the two versions that the
  code reads for its package in its section of the two manifests, and the two differ: no
  change is emitted when they are identical, both absent included.  Nor is one emitted
  when the two manifests' own entries for the package are identical.  A change classified
  as updated has both versions non-null, and only an updated change has a semver
  difference.
\<close>

theorem compareDependencies_changes:
  "\<forall>c \<in> set (compareDependencies localeCompare semverDiff fromPkg toPkg).
     dep_from c = getProperty (sectionOf fromPkg (dep_section c)) (dep_name c) \<and>
     dep_to c = getProperty (sectionOf toPkg (dep_section c)) (dep_name c) \<and>
     dep_from c \<noteq> dep_to c \<and>
     map_of (sectionOf fromPkg (dep_section c)) (dep_name c)
       \<noteq> map_of (sectionOf toPkg (dep_section c)) (dep_name c) \<and>
     (dep_type c = dep_updated \<longrightarrow> dep_from c \<noteq> None \<and> dep_to c \<noteq> None) \<and>
     (dep_type c \<noteq> dep_updated \<longrightarrow> dep_semverDiff c = None)"
proof
  fix c
  assume "c \<in> set (compareDependencies localeCompare semverDiff fromPkg toPkg)"
  then obtain sec where "c \<in> set (sectionChanges semverDiff fromPkg toPkg sec)"
    by (auto simp: compareDependencies_def set_sortBy)
  from sectionChanges_member [OF this] show
    "dep_from c = getProperty (sectionOf fromPkg (dep_section c)) (dep_name c) \<and>
     dep_to c = getProperty (sectionOf toPkg (dep_section c)) (dep_name c) \<and>
     dep_from c \<noteq> dep_to c \<and>
     map_of (sectionOf fromPkg (dep_section c)) (dep_name c)
       \<noteq> map_of (sectionOf toPkg (dep_section c)) (dep_name c) \<and>
     (dep_type c = dep_updated \<longrightarrow> dep_from c \<noteq> None \<and> dep_to c \<noteq> None) \<and>
     (dep_type c \<noteq> dep_updated \<longrightarrow> dep_semverDiff c = None)"
    by metis
qed

text \<open>
  Scenario C of the specification gives one update with the bucket \<open>minor\<close>; a package
  named \<open>constructor\<close> that only the to manifest has gives an update from the inherited
  function, with no bucket.
\<close>

theorem compareDependencies_changes_witness:
  "compareDependencies noOrder minorDiff
      (Some (manifestWith [(str ''lodash'', str ''^4.0.0'')]))
      (Some (manifestWith [(str ''lodash'', str ''^4.1.0'')])) = [lodashChange] \<and>
   dep_type lodashChange = dep_updated \<and>
   dep_from lodashChange \<noteq> dep_to lodashChange \<and>
   dep_from lodashChange \<noteq> None \<and> dep_to lodashChange \<noteq> None \<and>
   compareDependencies noOrder minorDiff
      (Some (manifestWith []))
      (Some (manifestWith [(str ''constructor'', str ''1.0.0'')])) = [constructorChange] \<and>
   dep_type constructorChange = dep_updated \<and>
   dep_from constructorChange \<noteq> dep_to constructorChange \<and>
   dep_from constructorChange \<noteq> None \<and> dep_to constructorChange \<noteq> None"
proof -
  have e: "compareDependencies noOrder minorDiff
      (Some (manifestWith [(str ''lodash'', str ''^4.0.0'')]))
      (Some (manifestWith [(str ''lodash'', str ''^4.1.0'')])) = [lodashChange]"
    by code_simp
  have t: "dep_type lodashChange = dep_updated" by (simp add: lodashChange_def)
  have "lodashChange \<in> set (compareDependencies noOrder minorDiff
      (Some (manifestWith [(str ''lodash'', str ''^4.0.0'')]))
      (Some (manifestWith [(str ''lodash'', str ''^4.1.0'')])))"
    unfolding e by simp
  with compareDependencies_changes [of noOrder minorDiff
      "Some (manifestWith [(str ''lodash'', str ''^4.0.0'')])"
      "Some (manifestWith [(str ''lodash'', str ''^4.1.0'')])"]
  have 1: "dep_from lodashChange \<noteq> dep_to lodashChange \<and>
    (dep_type lodashChange = dep_updated \<longrightarrow>
       dep_from lodashChange \<noteq> None \<and> dep_to lodashChange \<noteq> None)"
    by blast
  have e': "compareDependencies noOrder minorDiff
      (Some (manifestWith []))
      (Some (manifestWith [(str ''constructor'', str ''1.0.0'')])) = [constructorChange]"
    by code_simp
  have t': "dep_type constructorChange = dep_updated" by (simp add: constructorChange_def)
  have "constructorChange \<in> set (compareDependencies noOrder minorDiff
      (Some (manifestWith []))
      (Some (manifestWith [(str ''constructor'', str ''1.0.0'')])))"
    unfolding e' by simp
  with compareDependencies_changes [of noOrder minorDiff
      "Some (manifestWith [])"
      "Some (manifestWith [(str ''constructor'', str ''1.0.0'')])"]
  have 2: "dep_from constructorChange \<noteq> dep_to constructorChange \<and>
    (dep_type constructorChange = dep_updated \<longrightarrow>
       dep_from constructorChange \<noteq> None \<and> dep_to constructorChange \<noteq> None)"
    by blast
  from e t 1 e' t' 2 show ?thesis by blast
qed

section \<open>The cap of the file-tree comparison\<close>

lemma overLimit_total: "overLimit st \<longleftrightarrow> MAX_FILES_COMPARE \<le> totalChanges st"
  by (simp add: overLimit_def totalChanges_def)

lemma classifyTo_total:
  "totalChanges (classifyTo fromFiles p toNode st) \<le> Suc (totalChanges st) \<and>
   truncated (classifyTo fromFiles p toNode st) = truncated st"
  by (simp add: classifyTo_def Let_def totalChanges_def pushAdded_def pushRemoved_def
      pushModified_def split: option.splits)

lemma withinCap_truncate:
  "withinCap st \<Longrightarrow> overLimit st \<Longrightarrow> withinCap (st\<lparr>truncated := True\<rparr>)"
  by (simp add: withinCap_def overLimit_total totalChanges_def)

lemma withinCap_step:
  assumes "withinCap st" and "\<not> overLimit st"
    and "totalChanges st' \<le> Suc (totalChanges st)" and "truncated st' = truncated st"
  shows "withinCap st'"
  using assms by (auto simp: withinCap_def overLimit_total)

lemma scanTo_withinCap: "withinCap st \<Longrightarrow> withinCap (scanTo fromFiles toFiles st)"
proof (induction fromFiles toFiles st rule: scanTo.induct)
  case (1 fromFiles st)
  then show ?case by simp
next
  case (2 fromFiles p toNode rest st)
  show ?case
  proof (cases "overLimit st")
    case True
    then have eq: "scanTo fromFiles ((p, toNode) # rest) st = st\<lparr>truncated := True\<rparr>"
      by simp
    show ?thesis
      by (subst eq) (rule withinCap_truncate [OF "2.prems" True])
  next
    case False
    have "withinCap (classifyTo fromFiles p toNode st)"
      using classifyTo_total [of fromFiles p toNode st]
      by (intro withinCap_step [OF "2.prems" False]) simp_all
    with False "2.IH" show ?thesis by simp
  qed
qed

lemma scanFrom_withinCap: "withinCap st \<Longrightarrow> withinCap (scanFrom toFiles fromFiles st)"
proof (induction toFiles fromFiles st rule: scanFrom.induct)
  case (1 toFiles st)
  then show ?case by simp
next
  case (2 toFiles p fromNode rest st)
  show ?case
  proof (cases "node_type fromNode = Directory")
    case True
    with 2 show ?thesis by simp
  next
    case notDir: False
    show ?thesis
    proof (cases "overLimit st")
      case True
      with notDir have eq: "scanFrom toFiles ((p, fromNode) # rest) st = st\<lparr>truncated := True\<rparr>"
        by simp
      show ?thesis
        by (subst eq) (rule withinCap_truncate [OF "2.prems" True])
    next
      case False
      let ?st' = "if \<not> mapHas toFiles p then pushRemoved p fromNode st else st"
      have "withinCap ?st'"
        by (intro withinCap_step [OF "2.prems" False]) (simp_all add: totalChanges_def pushRemoved_def)
      with notDir False "2.IH"(2) show ?thesis by simp
    qed
  qed
qed

lemma compareFileTrees_total:
  "totalChanges (compareFileTrees localeCompare fromTree toTree)
     = totalChanges (scanFrom (flattenTree toTree) (flattenTree fromTree)
         (scanTo (flattenTree fromTree) (flattenTree toTree)
            \<lparr>added = [], removed = [], modified = [], truncated = False\<rparr>))"
  by (simp add: compareFileTrees_def Let_def totalChanges_def length_sortBy)

lemma compareFileTrees_truncated:
  "truncated (compareFileTrees localeCompare fromTree toTree)
     = truncated (scanFrom (flattenTree toTree) (flattenTree fromTree)
         (scanTo (flattenTree fromTree) (flattenTree toTree)
            \<lparr>added = [], removed = [], modified = [], truncated = False\<rparr>))"
  by (simp add: compareFileTrees_def Let_def)

lemma compareFileTrees_withinCap: "withinCap (compareFileTrees localeCompare fromTree toTree)"
proof -
  have "withinCap \<lparr>added = [], removed = [], modified = [], truncated = False\<rparr>"
    by (simp add: withinCap_def totalChanges_def)
  then have "withinCap (scanFrom (flattenTree toTree) (flattenTree fromTree)
         (scanTo (flattenTree fromTree) (flattenTree toTree)
            \<lparr>added = [], removed = [], modified = [], truncated = False\<rparr>))"
    by (intro scanFrom_withinCap scanTo_withinCap)
  then show ?thesis
    unfolding withinCap_def compareFileTrees_total compareFileTrees_truncated .
qed

lemma mapSet_keys:
  "map fst (mapSet k v m) = (if k \<in> fst ` set m then map fst m else map fst m @ [k])"
  by (induction m) (auto simp: mapSet_def)

lemma distinct_mapSet: "distinct (map fst m) \<Longrightarrow> distinct (map fst (mapSet k v m))"
  by (simp add: mapSet_keys)

lemma traverse_distinct:
  "distinct (map fst m) \<Longrightarrow> distinct (map fst (traverseNode n m))"
  "distinct (map fst m) \<Longrightarrow> distinct (map fst (traverse ns m))"
proof (induction n m and ns m rule: traverseNode_traverse.induct)
  case (1 p t s h cs result)
  then show ?case by (cases cs) (simp_all add: distinct_mapSet)
next
  case (2 result)
  then show ?case by simp
next
  case (3 n ns result)
  then show ?case by simp
qed

lemma flattenTree_distinct: "distinct (map fst (flattenTree tree))"
  by (simp add: flattenTree_def traverse_distinct)

lemma mapHas_iff: "mapHas m k \<longleftrightarrow> mapGet m k \<noteq> None"
  by (simp add: mapHas_def mapGet_def map_of_eq_None_iff)

lemma classifyTo_onlyAdditions:
  assumes oa: "onlyAdditions fromFiles toFiles"
    and d: "distinct (map fst toFiles)"
    and e: "(p, t) \<in> set toFiles"
  shows "classifyTo fromFiles p t st = (if isNewFile fromFiles (p, t) then pushAdded p t st else st)"
proof (cases "mapGet fromFiles p")
  case None
  then have "\<not> mapHas fromFiles p" by (simp add: mapHas_iff)
  with None show ?thesis
    by (cases "node_type t") (simp_all add: classifyTo_def isNewFile_def)
next
  case (Some f)
  then have "(p, f) \<in> set fromFiles" by (simp add: mapGet_def map_of_SomeD)
  with oa have "unchangedIn toFiles (p, f)" by (simp add: onlyAdditions_def list_all_iff)
  moreover have "mapGet toFiles p = Some t"
    using d e by (simp add: mapGet_def)
  ultimately have u: "node_type t = node_type f" "\<not> hasChanged f t"
    by (simp_all add: unchangedIn_def)
  have "mapHas fromFiles p" using Some by (simp add: mapHas_iff)
  with Some u show ?thesis
    by (cases "node_type t") (simp_all add: classifyTo_def isNewFile_def)
qed

lemma scanTo_fill:
  assumes "\<forall>e \<in> set xs. \<forall>st. classifyTo fromFiles (fst e) (snd e) st
             = (if isNewFile fromFiles e then pushAdded (fst e) (snd e) st else st)"
    and "length (added st) \<le> MAX_FILES_COMPARE"
    and "removed st = []" and "modified st = []"
    and "MAX_FILES_COMPARE < length (added st) + length (filter (isNewFile fromFiles) xs)"
  shows "scanTo fromFiles xs st =
           st\<lparr>added := added st @ map addedChange
                      (take (MAX_FILES_COMPARE - length (added st)) (filter (isNewFile fromFiles) xs)),
              truncated := True\<rparr>"
  using assms
proof (induction xs arbitrary: st)
  case Nil
  then show ?case by simp
next
  case (Cons e xs)
  obtain p t where e: "e = (p, t)" by (cases e)
  show ?case
  proof (cases "overLimit st")
    case True
    then have "length (added st) = MAX_FILES_COMPARE"
      using Cons.prems(2,3,4) by (simp add: overLimit_def)
    with True show ?thesis by (simp add: e)
  next
    case False
    then have lt: "length (added st) < MAX_FILES_COMPARE"
      using Cons.prems(3,4) by (simp add: overLimit_def)
    have c: "classifyTo fromFiles p t st = (if isNewFile fromFiles e then pushAdded p t st else st)"
      using Cons.prems(1) by (simp add: e)
    have rest: "\<forall>e \<in> set xs. \<forall>st. classifyTo fromFiles (fst e) (snd e) st
             = (if isNewFile fromFiles e then pushAdded (fst e) (snd e) st else st)"
      using Cons.prems(1) by simp
    show ?thesis
    proof (cases "isNewFile fromFiles e")
      case True
      let ?st = "pushAdded p t st"
      have a: "added ?st = added st @ [addedChange e]"
        by (simp add: pushAdded_def addedChange_def e)
      have "scanTo fromFiles xs ?st =
           ?st\<lparr>added := added ?st @ map addedChange
                      (take (MAX_FILES_COMPARE - length (added ?st)) (filter (isNewFile fromFiles) xs)),
              truncated := True\<rparr>"
        using rest lt Cons.prems(3,4,5) True a
        by (intro Cons.IH) (simp_all add: pushAdded_def)
      moreover have "take (MAX_FILES_COMPARE - length (added st)) (e # filter (isNewFile fromFiles) xs)
          = e # take (MAX_FILES_COMPARE - length (added ?st)) (filter (isNewFile fromFiles) xs)"
        using lt a by (simp add: take_Cons')
      ultimately show ?thesis
        using False True c a by (simp add: e pushAdded_def)
    next
      case notNew: False
      have "scanTo fromFiles xs st =
           st\<lparr>added := added st @ map addedChange
                      (take (MAX_FILES_COMPARE - length (added st)) (filter (isNewFile fromFiles) xs)),
              truncated := True\<rparr>"
        using rest Cons.prems(2,3,4,5) notNew by (intro Cons.IH) simp_all
      then show ?thesis
        using False notNew c by (simp add: e)
    qed
  qed
qed

lemma scanFrom_full:
  "overLimit st \<Longrightarrow> truncated st \<Longrightarrow> scanFrom toFiles xs st = st"
proof (induction xs)
  case Nil
  then show ?case by simp
next
  case (Cons e xs)
  obtain p f where e: "e = (p, f)" by (cases e)
  from Cons show ?case by (simp add: e)
qed

lemma compareFileTrees_many_added:
  assumes oa: "onlyAdditions (flattenTree fromTree) (flattenTree toTree)"
    and n: "MAX_FILES_COMPARE < length (filter (isNewFile (flattenTree fromTree)) (flattenTree toTree))"
  shows "compareFileTrees localeCompare fromTree toTree =
           \<lparr>added = sortBy (byPath localeCompare) (map addedChange
               (take MAX_FILES_COMPARE (filter (isNewFile (flattenTree fromTree)) (flattenTree toTree)))),
            removed = [], modified = [], truncated = True\<rparr>"
proof -
  let ?F = "flattenTree fromTree" and ?T = "flattenTree toTree"
  let ?st0 = "\<lparr>added = [], removed = [], modified = [], truncated = False\<rparr>"
  let ?st1 = "\<lparr>added = map addedChange (take MAX_FILES_COMPARE (filter (isNewFile ?F) ?T)),
               removed = [], modified = [], truncated = True\<rparr>"
  have c: "\<forall>e \<in> set ?T. \<forall>st. classifyTo ?F (fst e) (snd e) st
             = (if isNewFile ?F e then pushAdded (fst e) (snd e) st else st)"
    using classifyTo_onlyAdditions [OF oa flattenTree_distinct] by auto
  have "scanTo ?F ?T ?st0 =
     ?st0\<lparr>added := added ?st0 @ map addedChange
                      (take (MAX_FILES_COMPARE - length (added ?st0)) (filter (isNewFile ?F) ?T)),
              truncated := True\<rparr>"
    using c n by (intro scanTo_fill) simp_all
  then have 1: "scanTo ?F ?T ?st0 = ?st1" by simp
  have "length (take MAX_FILES_COMPARE (filter (isNewFile ?F) ?T)) = MAX_FILES_COMPARE"
    using n by simp
  then have "overLimit ?st1" by (simp add: overLimit_def)
  then have 2: "scanFrom ?T ?F ?st1 = ?st1" by (intro scanFrom_full) simp_all
  show ?thesis
    by (simp add: compareFileTrees_def Let_def 1 2 sortBy_def)
qed

lemma traverse_leaves:
  assumes "\<forall>t \<in> set ns. node_children t = None"
    and "distinct (map node_path ns)"
    and "\<forall>t \<in> set ns. node_path t \<notin> fst ` set m"
  shows "traverse ns m = m @ map (\<lambda>t. (node_path t, t)) ns"
  using assms
proof (induction ns arbitrary: m)
  case Nil
  then show ?case by simp
next
  case (Cons n ns)
  obtain p t s h cs where n: "n = PackageFileTree p t s h cs" by (cases n)
  have cs: "cs = None" using Cons.prems(1) n by simp
  have "p \<notin> fst ` set m" using Cons.prems(3) n by simp
  then have step: "traverseNode n m = m @ [(p, n)]"
    by (simp add: n cs mapSet_def)
  have "traverse ns (m @ [(p, n)]) = (m @ [(p, n)]) @ map (\<lambda>t. (node_path t, t)) ns"
    using Cons.prems n by (intro Cons.IH) auto
  then show ?case by (simp add: step) (simp add: n)
qed

lemma manyFiles_flat:
  "flattenTree (manyFiles n) = map (\<lambda>t. (node_path t, t)) (manyFiles n)"
proof -
  have "inj_on (\<lambda>i. replicate (Suc i) (0x61 :: code_unit)) {0..<n}"
    by (rule inj_onI) (metis length_replicate nat.inject)
  then have "distinct (map node_path (manyFiles n))"
    by (simp add: manyFiles_def fileNamed_def comp_def distinct_map)
  moreover have "\<forall>t \<in> set (manyFiles n). node_children t = None"
    by (auto simp: manyFiles_def fileNamed_def)
  ultimately have "traverse (manyFiles n) [] = [] @ map (\<lambda>t. (node_path t, t)) (manyFiles n)"
    by (intro traverse_leaves) simp_all
  then show ?thesis by (simp add: flattenTree_def)
qed

lemma manyFiles_new:
  "onlyAdditions (flattenTree []) (flattenTree (manyFiles n)) \<and>
   filter (isNewFile (flattenTree [])) (flattenTree (manyFiles n)) = flattenTree (manyFiles n) \<and>
   length (flattenTree (manyFiles n)) = n"
proof -
  have "filter (isNewFile (flattenTree [])) (flattenTree (manyFiles n)) = flattenTree (manyFiles n)"
    unfolding manyFiles_flat
    by (rule filter_True)
       (auto simp: isNewFile_def mapHas_def flattenTree_def manyFiles_def fileNamed_def)
  moreover have "length (flattenTree (manyFiles n)) = n"
    by (simp add: manyFiles_flat) (simp add: manyFiles_def)
  ultimately show ?thesis
    by (simp add: onlyAdditions_def flattenTree_def)
qed

lemma traverse_nodes:
  "distinct (map node_path (nodesOf n)) \<Longrightarrow>
   set (map node_path (nodesOf n)) \<inter> fst ` set m = {} \<Longrightarrow>
   traverseNode n m = m @ map entryOf (nodesOf n)"
  "distinct (map node_path (allNodes ns)) \<Longrightarrow>
   set (map node_path (allNodes ns)) \<inter> fst ` set m = {} \<Longrightarrow>
   traverse ns m = m @ map entryOf (allNodes ns)"
proof (induction n m and ns m rule: traverseNode_traverse.induct)
  case (1 p t s h cs result)
  let ?n = "PackageFileTree p t s h cs"
  have p: "p \<notin> fst ` set result" using "1.prems"(2) by auto
  then have set: "mapSet p ?n result = result @ [(p, ?n)]" by (simp add: mapSet_def)
  show ?case
  proof (cases cs)
    case None
    with set show ?thesis by (simp add: entryOf_def)
  next
    case (Some ns)
    have d: "distinct (map node_path (allNodes ns))"
      using "1.prems"(1) Some by simp
    have i: "set (map node_path (allNodes ns)) \<inter> fst ` set (result @ [(p, ?n)]) = {}"
      using "1.prems" Some by auto
    have "traverse ns (mapSet p ?n result) = mapSet p ?n result @ map entryOf (allNodes ns)"
      using d i by (intro "1.IH" [OF refl Some]) (simp_all add: set)
    with set Some show ?thesis by (simp add: entryOf_def)
  qed
next
  case (2 result)
  then show ?case by simp
next
  case (3 n ns result)
  have 1: "traverseNode n result = result @ map entryOf (nodesOf n)"
    using "3.prems" by (intro "3.IH"(1)) auto
  have d: "distinct (map node_path (allNodes ns))" using "3.prems"(1) by simp
  have a: "set (map node_path (allNodes ns)) \<inter> fst ` set result = {}"
    using "3.prems"(2) by auto
  have b: "set (map node_path (allNodes ns)) \<inter> set (map node_path (nodesOf n)) = {}"
    using "3.prems"(1) by auto
  have "fst ` set (map entryOf (nodesOf n)) = set (map node_path (nodesOf n))"
    by (simp add: entryOf_def image_image)
  then have "fst ` set (traverseNode n result) = fst ` set result \<union> set (map node_path (nodesOf n))"
    unfolding 1 by (simp only: set_append image_Un)
  with a b have i: "set (map node_path (allNodes ns)) \<inter> fst ` set (traverseNode n result) = {}"
    by blast
  have "traverse ns (traverseNode n result) = traverseNode n result @ map entryOf (allNodes ns)"
    using d i by (rule "3.IH"(2))
  then show ?case by (simp add: 1)
qed

lemma flattenTree_nodes:
  "distinct (pathsOf tree) \<Longrightarrow> flattenTree tree = map entryOf (allNodes tree)"
  using traverse_nodes(2) [of tree "[]"] by (simp add: flattenTree_def pathsOf_def)

lemma entryOf_keys: "map fst (map entryOf ns) = map node_path ns"
  by (simp add: entryOf_def comp_def)

lemma onlyAdditions_nodes:
  assumes df: "distinct (pathsOf fromTree)" and dt: "distinct (pathsOf toTree)"
    and oa: "onlyFilesAdded fromTree toTree"
  shows "onlyAdditions (flattenTree fromTree) (flattenTree toTree)"
proof -
  have "unchangedIn (map entryOf (allNodes toTree)) (entryOf f)" if f: "f \<in> set (allNodes fromTree)" for f
  proof -
    from oa f have "carriedOver toTree f" by (simp add: onlyFilesAdded_def list_all_iff)
    then obtain t where t: "t \<in> set (allNodes toTree)" "node_path t = node_path f"
        "node_type t = node_type f" "\<not> hasChanged f t"
      by (auto simp: carriedOver_def list_ex_iff)
    have "distinct (map fst (map entryOf (allNodes toTree)))"
      using dt by (simp only: entryOf_keys pathsOf_def)
    moreover have "(node_path f, t) \<in> set (map entryOf (allNodes toTree))"
    proof -
      have "entryOf t \<in> set (map entryOf (allNodes toTree))" using t(1) by simp
      then show ?thesis using t(2) by (simp only: entryOf_def)
    qed
    ultimately have "map_of (map entryOf (allNodes toTree)) (node_path f) = Some t"
      by (rule map_of_is_SomeI)
    with t(3,4) show ?thesis by (simp add: unchangedIn_def mapGet_def entryOf_def)
  qed
  then show ?thesis
    by (simp add: onlyAdditions_def flattenTree_nodes [OF df] flattenTree_nodes [OF dt] list_all_iff)
qed

lemma newFiles_nodes:
  assumes df: "distinct (pathsOf fromTree)" and dt: "distinct (pathsOf toTree)"
  shows "filter (isNewFile (flattenTree fromTree)) (flattenTree toTree)
           = map entryOf (newFiles fromTree toTree)"
proof -
  have "fst ` set (map entryOf (allNodes fromTree)) = set (pathsOf fromTree)"
    by (simp add: entryOf_def pathsOf_def image_image)
  then have "isNewFile (map entryOf (allNodes fromTree)) (entryOf t)
      = (node_type t = File \<and> node_path t \<notin> set (pathsOf fromTree))" for t
    by (simp add: isNewFile_def mapHas_def entryOf_def)
  then show ?thesis
    by (simp add: flattenTree_nodes [OF df] flattenTree_nodes [OF dt] filter_map comp_def
        newFiles_def)
qed

lemma addedChange_entryOf: "addedChange (entryOf t) = addedFile t"
  by (simp add: addedChange_def addedFile_def entryOf_def)

text \<open>
  C6.  Take two trees, each with distinct paths, that differ only by added files, 1001 of
  them, at any depth of the to tree.  The comparison returns 1000 changes in all and is
  marked truncated; nothing is removed or modified, and the added list is the first 1000
  new files in the order of the to tree, sorted.  The comparison returns this result as a
  value: truncation is no error.
\<close>

theorem compareFileTrees_truncates_at_cap:
  assumes "distinct (pathsOf fromTree)" and "distinct (pathsOf toTree)"
    and "onlyFilesAdded fromTree toTree"
    and "length (newFiles fromTree toTree) = 1001"
  shows "totalChanges (compareFileTrees localeCompare fromTree toTree) = 1000 \<and>
         truncated (compareFileTrees localeCompare fromTree toTree) \<and>
         removed (compareFileTrees localeCompare fromTree toTree) = [] \<and>
         modified (compareFileTrees localeCompare fromTree toTree) = [] \<and>
         added (compareFileTrees localeCompare fromTree toTree) =
           sortBy (byPath localeCompare) (map addedFile (take 1000 (newFiles fromTree toTree)))"
proof -
  have oa: "onlyAdditions (flattenTree fromTree) (flattenTree toTree)"
    using assms(1,2,3) by (rule onlyAdditions_nodes)
  have nf: "filter (isNewFile (flattenTree fromTree)) (flattenTree toTree)
           = map entryOf (newFiles fromTree toTree)"
    using assms(1,2) by (rule newFiles_nodes)
  have "MAX_FILES_COMPARE < length (filter (isNewFile (flattenTree fromTree)) (flattenTree toTree))"
    using assms(4) by (simp add: nf MAX_FILES_COMPARE_def)
  from compareFileTrees_many_added [OF oa this, of localeCompare]
  show ?thesis
    using assms(4)
    by (simp add: nf totalChanges_def length_sortBy MAX_FILES_COMPARE_def take_map
        addedChange_entryOf comp_def)
qed

lemma nodesOf_leaf: "node_children n = None \<Longrightarrow> nodesOf n = [n]"
  by (cases n) simp

lemma allNodes_leaves: "\<forall>n \<in> set ns. node_children n = None \<Longrightarrow> allNodes ns = ns"
  by (induction ns) (simp_all add: nodesOf_leaf)

lemma grownTree_nodes: "allNodes (grownTree n) = keptFile # folderOf n # map fileIn [0..<n]"
proof -
  have "allNodes (map fileIn [0..<n]) = map fileIn [0..<n]"
    by (rule allNodes_leaves) (auto simp: fileIn_def)
  then show ?thesis
    by (simp add: grownTree_def keptFile_def folderOf_def)
qed

lemma grownTree_distinct: "distinct (pathsOf (grownTree n))"
proof -
  have "inj_on (\<lambda>i. str ''d/'' @ replicate (Suc i) (0x61 :: code_unit)) {0..<n}"
    by (rule inj_onI) (metis same_append_eq length_replicate nat.inject)
  then have "distinct (map (node_path \<circ> fileIn) [0..<n])"
    by (simp add: fileIn_def comp_def distinct_map)
  then show ?thesis
    by (auto simp: pathsOf_def grownTree_nodes keptFile_def folderOf_def fileIn_def str_def)
qed

lemma grownTree_facts:
  "distinct (pathsOf [keptFile]) \<and> distinct (pathsOf (grownTree n)) \<and>
   onlyFilesAdded [keptFile] (grownTree n) \<and>
   newFiles [keptFile] (grownTree n) = map fileIn [0..<n]"
proof -
  have k: "allNodes [keptFile] = [keptFile]" by (simp add: keptFile_def)
  have p: "pathsOf [keptFile] = [str ''k'']" by (simp add: pathsOf_def keptFile_def)
  have "\<not> hasChanged keptFile keptFile"
    by (simp add: hasChanged_def keptFile_def truthy_def str_def)
  then have "carriedOver (grownTree n) keptFile"
    by (simp add: carriedOver_def grownTree_nodes)
  then have oa: "onlyFilesAdded [keptFile] (grownTree n)"
    unfolding onlyFilesAdded_def k by simp
  have "filter (\<lambda>t. node_type t = File \<and> node_path t \<notin> set (pathsOf [keptFile])) (map fileIn [0..<n])
          = map fileIn [0..<n]"
    unfolding p by (rule filter_True) (auto simp: fileIn_def str_def)
  moreover have "node_path keptFile \<in> set (pathsOf [keptFile])"
    unfolding p by (simp add: keptFile_def)
  moreover have "node_type (folderOf n) \<noteq> File" by (simp add: folderOf_def)
  ultimately have nf: "newFiles [keptFile] (grownTree n) = map fileIn [0..<n]"
    unfolding newFiles_def grownTree_nodes by simp
  show ?thesis
    using oa nf grownTree_distinct [of n] unfolding p by simp
qed

theorem compareFileTrees_truncates_at_cap_witness:
  "distinct (pathsOf [keptFile]) \<and> distinct (pathsOf (grownTree 1001)) \<and>
   onlyFilesAdded [keptFile] (grownTree 1001) \<and>
   length (newFiles [keptFile] (grownTree 1001)) = 1001 \<and>
   totalChanges (compareFileTrees noOrder [keptFile] (grownTree 1001)) = 1000 \<and>
   truncated (compareFileTrees noOrder [keptFile] (grownTree 1001))"
proof -
  have h1: "distinct (pathsOf [keptFile])"
    and h2: "distinct (pathsOf (grownTree 1001))"
    and h3: "onlyFilesAdded [keptFile] (grownTree 1001)"
    using grownTree_facts [of 1001] by blast+
  have h4: "length (newFiles [keptFile] (grownTree 1001)) = 1001"
    using grownTree_facts [of 1001] by simp
  from compareFileTrees_truncates_at_cap [OF h1 h2 h3 h4, of noOrder] h1 h2 h3 h4
  show ?thesis by blast
qed

text \<open>
  C10.  For every pair of trees the comparison returns at most 1000 changes in all, and
  when it is marked truncated it returns exactly 1000.
\<close>

theorem compareFileTrees_within_cap:
  "totalChanges (compareFileTrees localeCompare fromTree toTree) \<le> 1000 \<and>
   (truncated (compareFileTrees localeCompare fromTree toTree) \<longrightarrow>
      totalChanges (compareFileTrees localeCompare fromTree toTree) = 1000)"
  using compareFileTrees_withinCap [of localeCompare fromTree toTree]
  by (simp add: withinCap_def MAX_FILES_COMPARE_def)

theorem compareFileTrees_within_cap_witness:
  "truncated (compareFileTrees noOrder [] (manyFiles 1001)) \<and>
   totalChanges (compareFileTrees noOrder [] (manyFiles 1001)) = 1000"
proof -
  have "MAX_FILES_COMPARE < length (filter (isNewFile (flattenTree [])) (flattenTree (manyFiles 1001)))"
    using manyFiles_new [of 1001] by (simp add: MAX_FILES_COMPARE_def)
  with manyFiles_new [of 1001]
  have "truncated (compareFileTrees noOrder [] (manyFiles 1001))"
    by (simp add: compareFileTrees_many_added)
  with compareFileTrees_within_cap [of noOrder "[]" "manyFiles 1001"]
  show ?thesis by simp
qed

section \<open>The order of the returned lists\<close>

lemma alphabeticCompare_le:
  "alphabeticCompare a b \<le> 0 \<longleftrightarrow>
     map foldCase a < map foldCase b \<or> (map foldCase a = map foldCase b \<and> b \<le> a)"
  by (auto simp: alphabeticCompare_def Let_def)

lemma alphabeticCompare_consistent: "consistentComparator alphabeticCompare"
  unfolding consistentComparator_def alphabeticCompare_le
  by (intro conjI allI impI) (auto intro: less_trans order_trans)

text \<open>
  C8, as amended.  Each of the three lists is ascending by path for the comparison that
  \<open>localeCompare\<close> makes, whenever that comparison is total and transitive.  The order
  is the one of the host's collation, not the order of the code units.
\<close>

theorem compareFileTrees_sorted:
  assumes "consistentComparator localeCompare"
  shows "ascending (byPath localeCompare) (added (compareFileTrees localeCompare fromTree toTree)) \<and>
         ascending (byPath localeCompare) (removed (compareFileTrees localeCompare fromTree toTree)) \<and>
         ascending (byPath localeCompare) (modified (compareFileTrees localeCompare fromTree toTree))"
  using ascending_sortBy [OF consistent_byPath [OF assms]]
  by (simp add: compareFileTrees_def Let_def)

lemma licenseAndIndex_added:
  "map fc_path (added (compareFileTrees alphabeticCompare [] licenseAndIndex))
     = [str ''index.js'', str ''LICENSE'']"
  by code_simp

theorem compareFileTrees_sorted_witness:
  "consistentComparator alphabeticCompare \<and>
   map fc_path (added (compareFileTrees alphabeticCompare [] licenseAndIndex))
     = [str ''index.js'', str ''LICENSE''] \<and>
   ascending (byPath alphabeticCompare) (added (compareFileTrees alphabeticCompare [] licenseAndIndex))"
  using compareFileTrees_sorted [OF alphabeticCompare_consistent, of "[]" licenseAndIndex]
    alphabeticCompare_consistent licenseAndIndex_added
  by simp

text \<open>
  With the alphabetic comparison, the added files \<open>LICENSE\<close> and \<open>index.js\<close> come out as
  \<open>index.js\<close>, \<open>LICENSE\<close>, which is not ascending by code units.
\<close>

theorem compareFileTrees_not_byte_sorted:
  "map fc_path (added (compareFileTrees alphabeticCompare [] licenseAndIndex))
     = [str ''index.js'', str ''LICENSE''] \<and>
   \<not> sorted (map fc_path (added (compareFileTrees alphabeticCompare [] licenseAndIndex)))"
proof -
  have "\<not> str ''index.js'' \<le> str ''LICENSE''"
    by (simp add: str_def)
  then show ?thesis
    unfolding licenseAndIndex_added by simp
qed

end
